theory Spec2Isabelle
  imports Complex_Main "HOL-Library.Signed_Division"
begin

section \<open>paps: paragraph segmentation and line flow (src/src/paps.c)\<close>

text \<open>
  A shallow embedding of the layout core of \<^verbatim>\<open>paps.c\<close>: \<^verbatim>\<open>read_file\<close>,
  \<^verbatim>\<open>split_text_into_paragraphs\<close> (plain mode), \<^verbatim>\<open>split_paragraphs_into_lines\<close>,
  \<^verbatim>\<open>output_pages\<close>, \<^verbatim>\<open>eject_column\<close>, \<^verbatim>\<open>eject_page\<close>, \<^verbatim>\<open>start_page\<close>,
  \<^verbatim>\<open>draw_line_to_page\<close> and \<^verbatim>\<open>draw_page_header_line_to_page\<close>.

  Conventions. C \<^verbatim>\<open>int\<close> values are mathematical integers: the embedding describes the
  executions without signed overflow (which is undefined in C). Integer division of C
  truncates towards zero and is written \<open>sdiv\<close>. A finite \<^verbatim>\<open>double\<close> is the real number it
  denotes. A division or multiplication of doubles whose result need not be a double again
  is rounded as IEEE 754 binary64 arithmetic rounds it (to nearest, ties to even; each
  operation of an expression is rounded, as with \<^verbatim>\<open>FLT_EVAL_METHOD\<close> 0); overflow of the
  range of \<^verbatim>\<open>double\<close> is not represented. The sums, differences, halves and products by
  an integer that give coordinates are not rounded. The conversion of a
  \<^verbatim>\<open>double\<close> to \<^verbatim>\<open>int\<close> is that of the real number: the embedding describes the
  executions in which its value is in the range of \<^verbatim>\<open>int\<close>. Flags that only ever hold 0 or 1
  (\<^verbatim>\<open>gboolean\<close>, \<^verbatim>\<open>formfeed\<close>) are booleans. Pango and cairo are collaborators: what
  Pango measures is data carried by the line, and what is sent to cairo is recorded as the
  sequence of calls made on the context.
\<close>

subsection \<open>Data\<close>

definition PANGO_SCALE :: int where
  "PANGO_SCALE = 1024"

definition BUFSIZE :: nat where
  "BUFSIZE = 1024"

datatype PangoDirection =
    PANGO_DIRECTION_LTR | PANGO_DIRECTION_RTL | PANGO_DIRECTION_TTB_LTR
  | PANGO_DIRECTION_TTB_RTL | PANGO_DIRECTION_WEAK_LTR | PANGO_DIRECTION_WEAK_RTL
  | PANGO_DIRECTION_NEUTRAL

datatype output_format_t = FORMAT_POSTSCRIPT | FORMAT_PDF | FORMAT_SVG

datatype PangoAlignment = PANGO_ALIGN_LEFT | PANGO_ALIGN_CENTER | PANGO_ALIGN_RIGHT

datatype PangoWrapMode = PANGO_WRAP_WORD | PANGO_WRAP_CHAR | PANGO_WRAP_WORD_CHAR

text \<open>A \<^verbatim>\<open>double\<close> that may be the quotient of a division by zero.\<close>

datatype double = Finite real | Not_finite

record PangoRectangle =
  rect_x :: int
  rect_y :: int
  rect_width :: int
  rect_height :: int

text \<open>A shaped line is opaque to paps; it is known by a handle and by the extents that
  \<^verbatim>\<open>pango_layout_line_get_extents\<close> reports for it.\<close>

record PangoLayoutLine =
  line_id :: nat
  line_ink :: PangoRectangle
  line_logical :: PangoRectangle

definition pango_layout_line_get_extents ::
  "PangoLayoutLine \<Rightarrow> PangoRectangle \<times> PangoRectangle" where
  "pango_layout_line_get_extents line = (line_ink line, line_logical line)"

record LineLink =
  pango_line :: PangoLayoutLine
  logical_rect :: PangoRectangle
  ink_rect :: PangoRectangle
  formfeed :: bool

text \<open>The fields of \<^verbatim>\<open>page_layout_t\<close> that the embedded functions read or write.\<close>

record page_layout_t =
  column_width :: int
  column_height :: int
  num_columns :: int
  gutter_width :: int
  top_margin :: int
  bottom_margin :: int
  left_margin :: int
  right_margin :: int
  page_width :: real
  page_height :: real
  header_sep :: int
  header_height :: int
  footer_height :: int
  scale_x :: double
  scale_y :: double
  do_landscape :: bool
  do_justify :: bool
  do_separation_line :: bool
  do_wordwrap :: bool
  do_stretch_chars :: bool
  pango_dir :: PangoDirection
  lpi :: real
  cpi :: real
  cups_mode :: bool

subsection \<open>Double precision\<close>

text \<open>The conversion of a \<^verbatim>\<open>double\<close> to an integer type truncates towards zero.\<close>

definition c_trunc :: "real \<Rightarrow> int" where
  "c_trunc r = (if 0 \<le> r then \<lfloor>r\<rfloor> else \<lceil>r\<rceil>)"

text \<open>The number of binary digits of a natural number.\<close>

fun bit_length :: "nat \<Rightarrow> nat" where
  "bit_length n = (if n = 0 then 0 else Suc (bit_length (n div 2)))"

declare bit_length.simps [simp del]

text \<open>The binary exponent of a positive real: the \<open>e\<close> with \<open>2\<^sup>e \<le> x < 2\<^sup>e\<^sup>+\<^sup>1\<close>.\<close>

definition ilog2 :: "real \<Rightarrow> int" where
  "ilog2 x = (if 1 \<le> x then int (bit_length (nat \<lfloor>x\<rfloor>)) - 1
              else - int (bit_length (nat (\<lceil>1 / x\<rceil> - 1))))"

text \<open>The nearest integer, the even one of two that are equally near.\<close>

definition round_even :: "real \<Rightarrow> int" where
  "round_even y =
     (let f = \<lfloor>y\<rfloor>
      in if y - real_of_int f < 1 / 2 then f
         else if y - real_of_int f > 1 / 2 then f + 1
         else if even f then f else f + 1)"

text \<open>The binary64 number nearest to a real: 53 significant binary digits, and no exponent
  below that of the subnormal numbers (-1022).\<close>

definition to_double :: "real \<Rightarrow> real" where
  "to_double x =
     (if x = 0 then 0
      else let e = max (ilog2 \<bar>x\<bar>) (- 1022);
               ulp = 2 powi (e - 52)
           in sgn x * real_of_int (round_even (\<bar>x\<bar> / ulp)) * ulp)"

text \<open>\<^verbatim>\<open>x / y\<close>, for a divisor that is not zero, and \<^verbatim>\<open>x * y\<close> on doubles.\<close>

definition d_div :: "real \<Rightarrow> real \<Rightarrow> real" where
  "d_div x y = to_double (x / y)"

definition d_mul :: "real \<Rightarrow> real \<Rightarrow> real" where
  "d_mul x y = to_double (x * y)"

subsection \<open>The cairo context\<close>

text \<open>The context is the sequence of calls made on it (and on its surface), each tagged
  with the function of paps that made the call.\<close>

datatype cairo_call =
    Identity_matrix
  | Scale double double
  | Translate real real
  | Rotate real
  | Move_to real real
  | Line_to real real
  | Set_line_width real
  | Stroke
  | Show_layout_line PangoLayoutLine
  | Show_page
  | Dsc_begin_page_setup
  | Dsc_comment string

datatype issuer = In_main | In_start_page | In_header | In_eject_column | In_eject_page
  | In_draw_line_to_page

type_synonym cairo_t = "(issuer \<times> cairo_call) list"

text \<open>The transformations in force after a sequence of calls are those made since the
  last \<^verbatim>\<open>cairo_identity_matrix\<close>, which resets the current transformation matrix.\<close>

fun ctm_step :: "cairo_call list \<Rightarrow> cairo_call \<Rightarrow> cairo_call list" where
  "ctm_step m Identity_matrix = []"
| "ctm_step m (Scale sx sy) = m @ [Scale sx sy]"
| "ctm_step m (Translate tx ty) = m @ [Translate tx ty]"
| "ctm_step m (Rotate a) = m @ [Rotate a]"
| "ctm_step m c = m"

text \<open>Every line shown, with the transformations in force when it is shown.\<close>

fun shown_with :: "cairo_call list \<Rightarrow> cairo_t \<Rightarrow> (cairo_call list \<times> PangoLayoutLine) list" where
  "shown_with m [] = []"
| "shown_with m ((who, Show_layout_line l) # cr) = (m, l) # shown_with m cr"
| "shown_with m ((who, c) # cr) = shown_with (ctm_step m c) cr"

text \<open>What the functions below take from outside \<^verbatim>\<open>page_layout_t\<close>: the global
  \<^verbatim>\<open>output_format\<close>, and the three lines Pango shapes for the header of a page.\<close>

record env =
  output_format :: output_format_t
  header_layout :: "int \<Rightarrow> PangoLayoutLine \<times> PangoLayoutLine \<times> PangoLayoutLine"

subsection \<open>The drawing functions\<close>

definition eject_page :: "cairo_t \<Rightarrow> cairo_t" where
  "eject_page cr = cr @ [(In_eject_page, Show_page)]"

definition start_page :: "env \<Rightarrow> cairo_t \<Rightarrow> page_layout_t \<Rightarrow> int \<Rightarrow> cairo_t" where
  "start_page e cr page_layout pidx =
     cr @ [(In_start_page, Identity_matrix)]
        @ (if output_format e = FORMAT_POSTSCRIPT
           then [(In_start_page, Dsc_begin_page_setup)] else [])
        @ (if do_landscape page_layout
           then (if output_format e = FORMAT_POSTSCRIPT
                 then [(In_start_page, Dsc_comment ''%%PageOrientation: Landscape''),
                       (In_start_page, Translate (page_height page_layout) 0),
                       (In_start_page, Rotate (pi / 2))]
                 else [])
           else (if output_format e = FORMAT_POSTSCRIPT
                 then [(In_start_page, Dsc_comment ''%%PageOrientation: Portrait'')]
                 else []))"

definition eject_column :: "cairo_t \<Rightarrow> page_layout_t \<Rightarrow> int \<Rightarrow> cairo_t" where
  "eject_column cr page_layout cidx =
     (if \<not> do_separation_line page_layout then cr
      else
        let cidx = (if pango_dir page_layout = PANGO_DIRECTION_RTL
                    then num_columns page_layout - cidx else cidx);
            total_gutter = (if cidx = 1
                            then 1.0 * real_of_int (gutter_width page_layout) / 2
                            else (real_of_int cidx - 0.5) * real_of_int (gutter_width page_layout));
            x_pos = real_of_int (left_margin page_layout + column_width page_layout * cidx)
                    + total_gutter;
            y_top = real_of_int (top_margin page_layout + header_height page_layout
                                 + header_sep page_layout sdiv 2);
            y_bot = page_height page_layout - real_of_int (bottom_margin page_layout)
                    - real_of_int (footer_height page_layout)
        in cr @ [(In_eject_column, Move_to x_pos y_top),
                 (In_eject_column, Line_to x_pos y_bot),
                 (In_eject_column, Set_line_width 0.1),
                 (In_eject_column, Stroke)])"

definition draw_line_x_pos :: "page_layout_t \<Rightarrow> int \<Rightarrow> PangoLayoutLine \<Rightarrow> int" where
  "draw_line_x_pos page_layout cidx line =
     (let x_pos = left_margin page_layout
                  + cidx * (column_width page_layout + gutter_width page_layout);
          x_pos = (if pango_dir page_layout = PANGO_DIRECTION_RTL
                   then left_margin page_layout
                        + (num_columns page_layout - 1 - cidx)
                          * (column_width page_layout + gutter_width page_layout)
                   else x_pos);
          (ink, logical) = pango_layout_line_get_extents line
      in (if pango_dir page_layout = PANGO_DIRECTION_RTL
          then x_pos + (column_width page_layout - rect_width logical sdiv PANGO_SCALE)
          else x_pos))"

definition draw_line_to_page ::
  "cairo_t \<Rightarrow> int \<Rightarrow> int \<Rightarrow> page_layout_t \<Rightarrow> PangoLayoutLine \<Rightarrow> cairo_t" where
  "draw_line_to_page cr cidx column_pos page_layout line =
     (let y_pos = top_margin page_layout + header_sep page_layout
                  + column_pos sdiv PANGO_SCALE;
          x_pos = draw_line_x_pos page_layout cidx line
      in cr @ [(In_draw_line_to_page, Move_to (real_of_int x_pos) (real_of_int y_pos)),
               (In_draw_line_to_page, Show_layout_line line)])"

definition draw_page_header_line_to_page ::
  "env \<Rightarrow> cairo_t \<Rightarrow> bool \<Rightarrow> page_layout_t \<Rightarrow> int \<Rightarrow> cairo_t \<times> page_layout_t" where
  "draw_page_header_line_to_page e cr is_footer page_layout page =
     (let (line0, line1, line2) = header_layout e page;
          x_left = real_of_int (left_margin page_layout);
          height = c_trunc (d_div (real_of_int (rect_height (line_logical line0) sdiv PANGO_SCALE))
                                  3.0);
          y_pos = (if is_footer
                   then page_height page_layout - real_of_int (bottom_margin page_layout)
                   else real_of_int (top_margin page_layout + height));
          page_layout = (if is_footer then page_layout\<lparr>footer_height := height\<rparr>
                         else page_layout\<lparr>header_height := height\<rparr>);
          x_center = (page_width page_layout
                      - real_of_int (rect_width (line_logical line1) sdiv PANGO_SCALE)) / 2;
          x_right = page_width page_layout - real_of_int (right_margin page_layout)
                    - real_of_int (rect_width (line_logical line2) sdiv PANGO_SCALE);
          line_pos = real_of_int (top_margin page_layout + header_height page_layout
                                  + header_sep page_layout sdiv 2)
      in (cr @ [(In_header, Move_to x_left y_pos), (In_header, Show_layout_line line0),
                (In_header, Move_to x_center y_pos), (In_header, Show_layout_line line1),
                (In_header, Move_to x_right y_pos), (In_header, Show_layout_line line2),
                (In_header, Move_to (real_of_int (left_margin page_layout)) line_pos),
                (In_header, Line_to (page_width page_layout
                                     - real_of_int (right_margin page_layout)) line_pos),
                (In_header, Set_line_width 0.1),
                (In_header, Stroke)],
          page_layout))"

subsection \<open>output_pages\<close>

text \<open>The local variables of \<^verbatim>\<open>output_pages\<close>, with the context and the layout record
  that its callees write to.\<close>

record out_state =
  column_idx :: int
  column_y_pos :: int
  page_idx :: int
  prev_line_link :: "LineLink option"
  st_cr :: cairo_t
  st_layout :: page_layout_t

text \<open>\<^verbatim>\<open>start_page\<close> followed by the header when \<^verbatim>\<open>need_header\<close> is set.\<close>

definition begin_page :: "env \<Rightarrow> bool \<Rightarrow> out_state \<Rightarrow> out_state" where
  "begin_page e need_header s =
     (let s = s\<lparr>st_cr := start_page e (st_cr s) (st_layout s) (page_idx s)\<rparr>
      in if need_header
         then (let (cr', pl') = draw_page_header_line_to_page e (st_cr s) False (st_layout s)
                                  (page_idx s)
               in s\<lparr>st_cr := cr', st_layout := pl'\<rparr>)
         else s)"

text \<open>The test "do we need to move to the next column".\<close>

definition need_break :: "int \<Rightarrow> out_state \<Rightarrow> LineLink \<Rightarrow> bool" where
  "need_break pango_column_height s line_link \<longleftrightarrow>
     column_y_pos s + rect_height (logical_rect line_link) \<ge> pango_column_height
     \<or> (case prev_line_link s of None \<Rightarrow> False | Some prev \<Rightarrow> formfeed prev)"

text \<open>The body of that \<^verbatim>\<open>if\<close>: the next column, or the next page after the last column.\<close>

definition next_column :: "env \<Rightarrow> bool \<Rightarrow> out_state \<Rightarrow> out_state" where
  "next_column e need_header s =
     (let s = s\<lparr>column_idx := column_idx s + 1\<rparr>;
          s = s\<lparr>column_y_pos := 0\<rparr>
      in if column_idx s = num_columns (st_layout s)
         then (let s = s\<lparr>column_idx := 0\<rparr>;
                   s = s\<lparr>st_cr := eject_page (st_cr s)\<rparr>;
                   s = s\<lparr>page_idx := page_idx s + 1\<rparr>
               in begin_page e need_header s)
         else s\<lparr>st_cr := eject_column (st_cr s) (st_layout s) (column_idx s)\<rparr>)"

definition line_height :: "page_layout_t \<Rightarrow> LineLink \<Rightarrow> int" where
  "line_height page_layout line_link =
     (if lpi page_layout > 0
      then c_trunc (d_mul (d_mul (d_div 1.0 (lpi page_layout)) 72.0) (real_of_int PANGO_SCALE))
      else rect_height (logical_rect line_link))"

text \<open>One iteration of the \<^verbatim>\<open>while (pango_lines)\<close> loop.\<close>

definition loop_body :: "env \<Rightarrow> bool \<Rightarrow> int \<Rightarrow> out_state \<Rightarrow> LineLink \<Rightarrow> out_state" where
  "loop_body e need_header pango_column_height s line_link =
     (let line = pango_line line_link;
          s = (if need_break pango_column_height s line_link
               then next_column e need_header s else s);
          height = line_height (st_layout s) line_link;
          s = s\<lparr>st_cr := draw_line_to_page (st_cr s) (column_idx s) (column_y_pos s + height)
                            (st_layout s) line\<rparr>;
          s = s\<lparr>column_y_pos := column_y_pos s + height\<rparr>
      in s\<lparr>prev_line_link := Some line_link\<rparr>)"

definition init_state :: "env \<Rightarrow> bool \<Rightarrow> cairo_t \<Rightarrow> page_layout_t \<Rightarrow> out_state" where
  "init_state e need_header cr page_layout =
     begin_page e need_header
       \<lparr>column_idx = 0, column_y_pos = 0, page_idx = 1, prev_line_link = None,
        st_cr = cr, st_layout = page_layout\<rparr>"

text \<open>The whole function: the page count it returns, the context and the layout record
  as it leaves them.\<close>

definition output_pages ::
  "env \<Rightarrow> cairo_t \<Rightarrow> LineLink list \<Rightarrow> page_layout_t \<Rightarrow> bool \<Rightarrow> int \<times> cairo_t \<times> page_layout_t" where
  "output_pages e cr pango_lines page_layout need_header =
     (let pango_column_height = column_height page_layout * PANGO_SCALE;
          s = foldl (loop_body e need_header pango_column_height)
                (init_state e need_header cr page_layout) pango_lines
      in (page_idx s, eject_page (st_cr s), st_layout s))"

text \<open>The states after each iteration of the loop, one per line of the stream: the state
  after the iteration of a line holds the page and the column the line was drawn in, and
  the vertical position it was drawn at.\<close>

fun loop_states :: "env \<Rightarrow> bool \<Rightarrow> int \<Rightarrow> out_state \<Rightarrow> LineLink list \<Rightarrow> out_state list" where
  "loop_states e need_header h s [] = []"
| "loop_states e need_header h s (l # ls) =
     (let s' = loop_body e need_header h s l in s' # loop_states e need_header h s' ls)"

definition placement :: "out_state \<Rightarrow> int \<times> int \<times> int" where
  "placement s = (page_idx s, column_idx s, column_y_pos s)"

definition assignments ::
  "env \<Rightarrow> cairo_t \<Rightarrow> LineLink list \<Rightarrow> page_layout_t \<Rightarrow> bool \<Rightarrow> (int \<times> int \<times> int) list" where
  "assignments e cr pango_lines page_layout need_header =
     map placement
       (loop_states e need_header (column_height page_layout * PANGO_SCALE)
          (init_state e need_header cr page_layout) pango_lines)"

subsection \<open>read_file\<close>

text \<open>
  The file is the sequence of its bytes; reading it does not fail, so the branch for
  \<^verbatim>\<open>ferror\<close> is not part of the embedding. A conversion handle is the function that
  \<^verbatim>\<open>g_iconv\<close> applies to the string in the buffer, \<open>None\<close> when it returns -1; the handle
  \<^verbatim>\<open>NULL\<close> is \<open>None\<close>.
\<close>

type_synonym GIConv = "(string \<Rightarrow> string option) option"

datatype read_error = Exit_failure | Read_before_buffer

text \<open>The characters one call of \<^verbatim>\<open>fgets\<close> stores: at most the given number, and none
  after a newline.\<close>

fun fgets_chars :: "nat \<Rightarrow> string \<Rightarrow> string" where
  "fgets_chars 0 cs = []"
| "fgets_chars (Suc k) [] = []"
| "fgets_chars (Suc k) (c # cs) = (if c = CHR 0x0A then [c] else c # fgets_chars k cs)"

text \<open>\<^verbatim>\<open>fgets (buffer, n, file)\<close> stores at most \<open>n - 1\<close> characters; it returns NULL at
  the end of the file. The result is what is stored and what is left of the file.\<close>

definition fgets :: "nat \<Rightarrow> string \<Rightarrow> (string \<times> string) option" where
  "fgets n file =
     (if file = [] then None
      else (let buffer = fgets_chars (n - 1) file in Some (buffer, drop (length buffer) file)))"

text \<open>The string that starts at a buffer ends before the first NUL byte: this is what
  \<^verbatim>\<open>strlen\<close> and \<^verbatim>\<open>g_string_append\<close> see of it.\<close>

definition c_str :: "string \<Rightarrow> string" where
  "c_str buffer = takeWhile (\<lambda>c. c \<noteq> CHR 0x00) buffer"

function read_loop :: "GIConv \<Rightarrow> string \<Rightarrow> string \<Rightarrow> read_error + string" where
  "read_loop handle inbuf file =
     (case fgets (BUFSIZE - 1) file of
        None \<Rightarrow> Inr inbuf
      | Some (buffer, rest) \<Rightarrow>
          (case handle of
             None \<Rightarrow> read_loop handle (inbuf @ c_str buffer) rest
           | Some conv \<Rightarrow>
               (case conv (c_str buffer) of
                  None \<Rightarrow> Inl Exit_failure
                | Some obuffer \<Rightarrow> read_loop handle (inbuf @ c_str obuffer) rest)))"
  by pat_completeness auto
termination
proof -
  have shorter: "length r < length f" if "fgets (BUFSIZE - Suc 0) f = Some (b, r)" for f b r
  proof -
    from that obtain c cs where f: "f = c # cs"
      by (cases f) (simp_all add: fgets_def)
    obtain k where "BUFSIZE - Suc 0 - 1 = Suc k"
      by (cases "BUFSIZE - Suc 0 - 1") (simp_all add: BUFSIZE_def)
    then have "fgets_chars (BUFSIZE - Suc 0 - 1) (c # cs) \<noteq> []"
      by (simp only: fgets_chars.simps) simp
    with that f show ?thesis by (auto simp: fgets_def Let_def)
  qed
  show ?thesis
    by (relation "measure (\<lambda>(handle, inbuf, file). length file)") (auto dest: shorter)
qed

declare read_loop.simps [simp del]

definition read_file :: "string \<Rightarrow> GIConv \<Rightarrow> read_error + string" where
  "read_file file handle =
     (case read_loop handle [] file of
        Inl e \<Rightarrow> Inl e
      | Inr inbuf \<Rightarrow>
          if inbuf = [] then Inl Read_before_buffer
          else if last inbuf \<noteq> CHR 0x0A then Inr (inbuf @ [CHR 0x0A])
          else Inr inbuf)"

subsection \<open>Paragraphs and their lines\<close>

text \<open>A code point as \<^verbatim>\<open>g_utf8_get_char\<close> returns it, and a byte of a string.\<close>

type_synonym gunichar = nat

type_synonym gchar = nat

text \<open>What paps sets on a \<^verbatim>\<open>PangoLayout\<close> before Pango shapes it.\<close>

record PangoLayout =
  layout_text :: "gchar list"
  layout_width :: int
  layout_wrap :: PangoWrapMode
  layout_justify :: bool
  layout_alignment :: PangoAlignment

text \<open>\<^verbatim>\<open>struct _Paragraph\<close>: \<open>para_text\<close> is the offset of \<^verbatim>\<open>para->text\<close> in the text
  buffer.\<close>

record Paragraph =
  para_text :: nat
  para_length :: nat
  para_height :: int
  para_formfeed :: bool
  para_layout :: PangoLayout

text \<open>The shaping collaborator: the lines of a layout, as \<^verbatim>\<open>pango_layout_get_line_count\<close>
  and \<^verbatim>\<open>pango_layout_get_line\<close> give them.\<close>

type_synonym shaper = "PangoLayout \<Rightarrow> PangoLayoutLine list"

text \<open>The body of the \<^verbatim>\<open>for\<close> loop over the lines of a paragraph, on the pair of
  \<^verbatim>\<open>line_list\<close> (built by prepending) and \<^verbatim>\<open>max_height\<close>.\<close>

definition for_line :: "Paragraph \<Rightarrow> PangoLayoutLine list \<Rightarrow> LineLink list \<times> int \<Rightarrow> nat \<Rightarrow> LineLink list \<times> int" where
  "for_line para lines acc i =
     (let (line_list, max_height) = acc;
          para_num_lines = int (length lines);
          line = lines ! i;
          (ink, logical) = pango_layout_line_get_extents line;
          line_link = \<lparr>pango_line = line, logical_rect = logical, ink_rect = ink,
                       formfeed = (para_formfeed para \<and> int i = para_num_lines - 1)\<rparr>
      in (line_link # line_list,
          if rect_height logical > max_height then rect_height logical else max_height))"

definition for_paragraph :: "shaper \<Rightarrow> LineLink list \<times> int \<Rightarrow> Paragraph \<Rightarrow> LineLink list \<times> int" where
  "for_paragraph shape acc para =
     (let lines = shape (para_layout para)
      in foldl (for_line para lines) acc [0..<length lines])"

definition split_paragraphs_into_lines ::
  "shaper \<Rightarrow> page_layout_t \<Rightarrow> Paragraph list \<Rightarrow> LineLink list \<times> page_layout_t" where
  "split_paragraphs_into_lines shape page_layout paragraphs =
     (let (line_list, max_height) = foldl (for_paragraph shape) ([], 0) paragraphs;
          page_layout =
            (if do_stretch_chars page_layout \<and> lpi page_layout > 0
             then page_layout\<lparr>scale_y :=
                    (if max_height = 0 then Not_finite
                     else Finite (d_div (d_mul (d_mul (d_div 1.0 (lpi page_layout)) 72.0)
                                                (real_of_int PANGO_SCALE))
                                         (real_of_int max_height)))\<rparr>
             else page_layout)
      in (rev line_list, page_layout))"

subsection \<open>UTF-8, as GLib reads it\<close>

text \<open>
  A byte is the value of an \<^verbatim>\<open>unsigned char\<close>; a string is the list of its bytes before
  the terminating NUL. The functions of GLib that the scan calls are collaborators; they
  are modelled after \<^verbatim>\<open>gutf8.c\<close>: \<^verbatim>\<open>g_utf8_get_char\<close> decodes what the first byte
  announces and checks only that the bytes that follow are continuation bytes, while
  \<^verbatim>\<open>g_utf8_to_ucs4\<close> also refuses a sequence that is longer than its code point needs.
\<close>

definition INVALID_CHAR :: gunichar where
  "INVALID_CHAR = 4294967295"

text \<open>The length that the first byte of a sequence announces, 0 for a byte that starts
  none.\<close>

definition utf8_length :: "gchar \<Rightarrow> nat" where
  "utf8_length c =
     (if c < 128 then 1 else if c div 32 = 6 then 2 else if c div 16 = 14 then 3
      else if c div 8 = 30 then 4 else if c div 4 = 62 then 5 else if c div 2 = 126 then 6
      else 0)"

text \<open>The bits of the code point that the first byte holds.\<close>

definition utf8_first :: "gchar \<Rightarrow> gunichar" where
  "utf8_first c =
     (if utf8_length c = 1 then c mod 128 else if utf8_length c = 2 then c mod 32
      else if utf8_length c = 3 then c mod 16 else if utf8_length c = 4 then c mod 8
      else if utf8_length c = 5 then c mod 4 else c mod 2)"

text \<open>The bytes that follow the first: each must be a continuation byte (the NUL that
  ends the string is none) and gives six bits.\<close>

fun utf8_rest :: "nat \<Rightarrow> gchar list \<Rightarrow> gunichar \<Rightarrow> gunichar" where
  "utf8_rest 0 bs r = r"
| "utf8_rest (Suc n) [] r = INVALID_CHAR"
| "utf8_rest (Suc n) (b # bs) r =
     (if b div 64 = 2 then utf8_rest n bs (r * 64 + b mod 64) else INVALID_CHAR)"

text \<open>\<^verbatim>\<open>g_utf8_get_char (p)\<close>, from the bytes at \<^verbatim>\<open>p\<close> and after it.\<close>

definition g_utf8_get_char :: "gchar list \<Rightarrow> gunichar" where
  "g_utf8_get_char bs =
     (case bs of
        [] \<Rightarrow> 0
      | c # rest \<Rightarrow>
          if utf8_length c = 0 then INVALID_CHAR
          else utf8_rest (utf8_length c - 1) rest (utf8_first c))"

text \<open>The table \<^verbatim>\<open>g_utf8_skip\<close>, by which \<^verbatim>\<open>g_utf8_next_char\<close> advances.\<close>

definition g_utf8_skip :: "gchar \<Rightarrow> nat" where
  "g_utf8_skip c = (if utf8_length c = 0 then 1 else utf8_length c)"

text \<open>The least code point that needs a sequence of the given length.\<close>

definition utf8_min_code :: "nat \<Rightarrow> gunichar" where
  "utf8_min_code n =
     (if n = 1 then 0 else if n = 2 then 128 else if n = 3 then 2048
      else if n = 4 then 65536 else if n = 5 then 2097152 else 67108864)"

text \<open>\<^verbatim>\<open>g_utf8_to_ucs4 (str, len, NULL, NULL, NULL)\<close> on the \<open>len\<close> bytes of \<open>str\<close>: NULL
  (\<open>None\<close>) when a sequence is malformed, cut short by the end, or longer than needed.\<close>

fun g_utf8_to_ucs4 :: "gchar list \<Rightarrow> gunichar list option" where
  "g_utf8_to_ucs4 [] = Some []"
| "g_utf8_to_ucs4 (c # bs) =
     (let n = utf8_length c;
          wc = g_utf8_get_char (c # bs)
      in if n = 0 \<or> length (c # bs) < n \<or> wc = INVALID_CHAR \<or> wc < utf8_min_code n then None
         else (case g_utf8_to_ucs4 (drop (n - 1) bs) of
                 None \<Rightarrow> None
               | Some ws \<Rightarrow> Some (wc # ws)))"

declare g_utf8_to_ucs4.simps [simp del]

text \<open>\<^verbatim>\<open>g_utf8_strlen (str, len)\<close>: the characters that lie within the \<open>len\<close> bytes.\<close>

fun g_utf8_strlen :: "gchar list \<Rightarrow> nat" where
  "g_utf8_strlen [] = 0"
| "g_utf8_strlen (c # bs) =
     (if g_utf8_skip c \<le> length (c # bs)
      then Suc (g_utf8_strlen (drop (g_utf8_skip c - 1) bs)) else 0)"

declare g_utf8_strlen.simps [simp del]

text \<open>\<^verbatim>\<open>g_unichar_to_utf8\<close>, and \<^verbatim>\<open>g_ucs4_to_utf8\<close>, which refuses a code point of more
  than 31 bits.\<close>

definition g_unichar_to_utf8 :: "gunichar \<Rightarrow> gchar list" where
  "g_unichar_to_utf8 c =
     (if c < 128 then [c]
      else if c < 2048 then [192 + c div 64, 128 + c mod 64]
      else if c < 65536 then [224 + c div 4096, 128 + c div 64 mod 64, 128 + c mod 64]
      else if c < 2097152
        then [240 + c div 262144, 128 + c div 4096 mod 64, 128 + c div 64 mod 64, 128 + c mod 64]
      else if c < 67108864
        then [248 + c div 16777216, 128 + c div 262144 mod 64, 128 + c div 4096 mod 64,
              128 + c div 64 mod 64, 128 + c mod 64]
      else [252 + c div 1073741824, 128 + c div 16777216 mod 64, 128 + c div 262144 mod 64,
            128 + c div 4096 mod 64, 128 + c div 64 mod 64, 128 + c mod 64])"

definition g_ucs4_to_utf8 :: "gunichar list \<Rightarrow> gchar list option" where
  "g_ucs4_to_utf8 str =
     (if \<exists>c\<in>set str. c \<ge> 2147483648 then None else Some (concat (map g_unichar_to_utf8 str)))"

text \<open>The byte at an offset of the text buffer; the NUL that ends it is at offset
  \<open>length text\<close>.\<close>

definition byte_at :: "gchar list \<Rightarrow> nat \<Rightarrow> gchar" where
  "byte_at text i = (if i < length text then text ! i else 0)"

text \<open>\<^verbatim>\<open>g_utf8_offset_to_pointer (text + p, n)\<close> for \<open>n \<ge> 0\<close>, as an offset into the text.\<close>

fun g_utf8_offset_to_pointer :: "gchar list \<Rightarrow> nat \<Rightarrow> nat \<Rightarrow> nat" where
  "g_utf8_offset_to_pointer text p 0 = p"
| "g_utf8_offset_to_pointer text p (Suc n) =
     g_utf8_offset_to_pointer text (p + g_utf8_skip (byte_at text p)) n"

declare g_utf8_offset_to_pointer.simps [simp del]

text \<open>\<^verbatim>\<open>g_utf8_prev_char (text + p)\<close>: back to the nearest byte that is no continuation
  byte. \<open>None\<close> is a search that leaves the buffer at its start.\<close>

fun g_utf8_prev_char :: "gchar list \<Rightarrow> nat \<Rightarrow> nat option" where
  "g_utf8_prev_char text 0 = None"
| "g_utf8_prev_char text (Suc q) =
     (if byte_at text q div 64 = 2 then g_utf8_prev_char text q else Some q)"

declare g_utf8_prev_char.simps [simp del]

subsection \<open>split_text_into_paragraphs, plain mode\<close>

text \<open>
  The text is the list of the bytes before the terminating NUL, and a pointer into it is
  an offset. The branch for markup (one paragraph for the whole text) is not part of the
  embedding.
\<close>

text \<open>What the scan takes from outside: \<^verbatim>\<open>wcwidth\<close> of the C library, and the logical
  width Pango reports for a layout (\<^verbatim>\<open>pango_layout_get_extents\<close>).\<close>

record scan_env =
  wcwidth :: "gunichar \<Rightarrow> int"
  layout_logical_width :: "PangoLayout \<Rightarrow> int"

definition pango_layout_new :: PangoLayout where
  "pango_layout_new =
     \<lparr>layout_text = [], layout_width = -1, layout_wrap = PANGO_WRAP_WORD,
      layout_justify = False, layout_alignment = PANGO_ALIGN_LEFT\<rparr>"

text \<open>The \<^verbatim>\<open>for\<close> loop that adds up the cell widths: it returns the index \<open>i\<close> at which
  it stops, from the characters still to visit, the running width and the index.\<close>

fun wrap_loop :: "(gunichar \<Rightarrow> int) \<Rightarrow> nat \<Rightarrow> gunichar list \<Rightarrow> nat \<Rightarrow> nat \<Rightarrow> nat" where
  "wrap_loop wcw col [] wwidth i = i"
| "wrap_loop wcw col (c # wtext) wwidth i =
     (let w = wcw c;
          wwidth = (if w \<ge> 0 then wwidth + nat w else wwidth)
      in if wwidth > col then i else wrap_loop wcw col wtext wwidth (Suc i))"

text \<open>The number of characters that fit on a line at the given cpi: the quotient and the
  product are doubles, and the result is converted to \<^verbatim>\<open>gsize\<close> (64 bits). The conversion
  is undefined (\<open>None\<close>) when the value, truncated, is not in the range of \<^verbatim>\<open>gsize\<close>.\<close>

definition cpi_columns :: "page_layout_t \<Rightarrow> nat option" where
  "cpi_columns page_layout =
     (let col = d_mul (d_div (real_of_int (column_width page_layout)) 72.0) (cpi page_layout)
      in if - 1 < col \<and> col < 2 ^ 64 then Some (nat (c_trunc col)) else None)"

text \<open>The layout of a paragraph that is not rewrapped for cpi: its text, and the wrap
  width when word wrap is on.\<close>

definition set_text_and_wrap :: "page_layout_t \<Rightarrow> int \<Rightarrow> gchar list \<Rightarrow> PangoLayout" where
  "set_text_and_wrap page_layout pw str =
     (if do_wordwrap page_layout
      then pango_layout_new\<lparr>layout_text := str, layout_wrap := PANGO_WRAP_WORD_CHAR,
                             layout_width := pw * PANGO_SCALE\<rparr>
      else pango_layout_new\<lparr>layout_text := str, layout_width := -1\<rparr>)"

text \<open>What the block at a paragraph boundary hands back: the jump to \<^verbatim>\<open>fail\<close>, a
  conversion to \<^verbatim>\<open>gsize\<close> that is undefined, a read before the start of the buffer, or
  the layout, \<^verbatim>\<open>para->length\<close>, \<^verbatim>\<open>next\<close>, \<^verbatim>\<open>wc\<close> and \<^verbatim>\<open>paint_width\<close>. The length of
  a paragraph that is kept whole is in bytes, that of one that is cut is in characters, as
  the source has them.\<close>

datatype block_result =
    Block_fail
  | Block_undefined_conversion
  | Block_read_before_start
  | Block_ok PangoLayout nat nat gunichar int

definition boundary_block ::
  "scan_env \<Rightarrow> page_layout_t \<Rightarrow> gchar list \<Rightarrow> nat \<Rightarrow> nat \<Rightarrow> nat \<Rightarrow> gunichar \<Rightarrow> int
     \<Rightarrow> block_result" where
  "boundary_block env page_layout text lastp p next wc pw =
     (let str = take (p - lastp) (drop lastp text)
      in if cpi page_layout > 0 \<and> do_wordwrap page_layout
         then (case g_utf8_to_ucs4 str of
                 None \<Rightarrow> Block_fail
               | Some wtext \<Rightarrow>
                   let len = g_utf8_strlen str
                   in (case cpi_columns page_layout of
                         None \<Rightarrow> Block_undefined_conversion
                       | Some col \<Rightarrow>
                           if len > col
                           then (let i = wrap_loop (wcwidth env) col (take len wtext) 0 0
                                 in case g_ucs4_to_utf8 (take i wtext) of
                                      None \<Rightarrow> Block_fail
                                    | Some newtext \<Rightarrow>
                                        let layout = pango_layout_new\<lparr>layout_text := newtext\<rparr>;
                                            pw = layout_logical_width env layout sdiv PANGO_SCALE;
                                            next = g_utf8_offset_to_pointer text lastp i
                                        in (case g_utf8_prev_char text next of
                                              None \<Rightarrow> Block_read_before_start
                                            | Some q \<Rightarrow>
                                                Block_ok (layout\<lparr>layout_width := -1\<rparr>) i next
                                                  (g_utf8_get_char (drop q text)) pw))
                           else Block_ok (pango_layout_new\<lparr>layout_text := str, layout_width := -1\<rparr>)
                                  (p - lastp) next wc pw))
         else Block_ok (set_text_and_wrap page_layout pw str) (p - lastp) next wc pw)"

record scan_state =
  scan_p :: nat
  last_para :: nat
  result :: "Paragraph list"
  paint_width :: int

datatype scan_error = Exit_1 | Undefined_conversion | Read_before_start | Read_after_end

definition new_paragraph :: "page_layout_t \<Rightarrow> nat \<Rightarrow> nat \<Rightarrow> gunichar \<Rightarrow> PangoLayout \<Rightarrow> Paragraph" where
  "new_paragraph page_layout lastp len wc layout =
     \<lparr>para_text = lastp, para_length = len, para_height = 0, para_formfeed = (wc = 12),
      para_layout = layout\<lparr>layout_justify := do_justify page_layout,
                           layout_alignment := (if pango_dir page_layout = PANGO_DIRECTION_LTR
                                                then PANGO_ALIGN_LEFT else PANGO_ALIGN_RIGHT)\<rparr>\<rparr>"

text \<open>One pass through the \<^verbatim>\<open>while\<close> loop, its condition included: the state to
  go on with, or what the function returns (\<^verbatim>\<open>exit\<close> included). The condition reads the
  byte at \<^verbatim>\<open>p\<close>, which is past the NUL when a sequence cut short by the end of the text
  was stepped over. Inside the loop \<^verbatim>\<open>*p\<close> is not 0, so the test \<^verbatim>\<open>!*p\<close> of the
  boundary is not repeated.\<close>

datatype pass = Continue scan_state | Return "scan_error + Paragraph list"

definition scan_step :: "scan_env \<Rightarrow> page_layout_t \<Rightarrow> gchar list \<Rightarrow> scan_state \<Rightarrow> pass" where
  "scan_step env page_layout text s =
     (if scan_p s > length text then Return (Inl Read_after_end)
      else if scan_p s < length text
      then (let p = scan_p s;
                wc = g_utf8_get_char (drop p text);
                next = p + g_utf8_skip (byte_at text p)
            in if wc = INVALID_CHAR \<and> cups_mode page_layout
               then Continue (s\<lparr>scan_p := next\<rparr>)
               else (let wc = (if wc = INVALID_CHAR then 0 else wc)
                     in if wc = 0 \<or> wc = 10 \<or> wc = 12
                        then (case boundary_block env page_layout text (last_para s) p next wc
                                     (paint_width s) of
                                Block_fail \<Rightarrow>
                                  if cups_mode page_layout
                                  then Continue (s\<lparr>scan_p := next\<rparr>)
                                  else Return (Inl Exit_1)
                              | Block_undefined_conversion \<Rightarrow> Return (Inl Undefined_conversion)
                              | Block_read_before_start \<Rightarrow> Return (Inl Read_before_start)
                              | Block_ok layout len next wc pw \<Rightarrow>
                                  let para = new_paragraph page_layout (last_para s) len wc layout;
                                      s = s\<lparr>last_para := next, result := para # result s,
                                            paint_width := pw\<rparr>
                                  in if wc = 0 then Return (Inr (rev (result s)))
                                     else Continue (s\<lparr>scan_p := next\<rparr>))
                        else Continue (s\<lparr>scan_p := next\<rparr>)))
      else Return (Inr (rev (result s))))"

text \<open>The loop, with fuel: \<open>None\<close> is a loop that has not ended when the fuel has.\<close>

fun scan :: "nat \<Rightarrow> scan_env \<Rightarrow> page_layout_t \<Rightarrow> gchar list \<Rightarrow> scan_state
               \<Rightarrow> (scan_error + Paragraph list) option" where
  "scan 0 env page_layout text s = None"
| "scan (Suc fuel) env page_layout text s =
     (case scan_step env page_layout text s of
        Continue s' \<Rightarrow> scan fuel env page_layout text s'
      | Return r \<Rightarrow> Some r)"

definition split_text_into_paragraphs ::
  "nat \<Rightarrow> scan_env \<Rightarrow> page_layout_t \<Rightarrow> int \<Rightarrow> gchar list
     \<Rightarrow> (scan_error + Paragraph list) option" where
  "split_text_into_paragraphs fuel env page_layout pw text =
     scan fuel env page_layout text \<lparr>scan_p = 0, last_para = 0, result = [], paint_width = pw\<rparr>"

subsection \<open>The calls of main\<close>

text \<open>The gutter total of \<^verbatim>\<open>main\<close>, from the column count and the gutter width.\<close>

definition total_gutter_width :: "int \<Rightarrow> int \<Rightarrow> int" where
  "total_gutter_width ncols gw = (if ncols = 1 then 0 else gw * (ncols - 1))"

text \<open>The end of \<^verbatim>\<open>main\<close>: the lines of the paragraphs, \<^verbatim>\<open>cairo_scale\<close> with the
  two scales of the layout record, then \<^verbatim>\<open>output_pages\<close>.\<close>

definition main_render ::
  "env \<Rightarrow> shaper \<Rightarrow> cairo_t \<Rightarrow> page_layout_t \<Rightarrow> Paragraph list \<Rightarrow> bool
     \<Rightarrow> int \<times> cairo_t \<times> page_layout_t" where
  "main_render e shape cr page_layout paragraphs do_draw_header =
     (let (pango_lines, page_layout) = split_paragraphs_into_lines shape page_layout paragraphs;
          cr = cr @ [(In_main, Scale (scale_x page_layout) (scale_y page_layout))]
      in output_pages e cr pango_lines page_layout do_draw_header)"

subsection \<open>Notions the properties are stated with\<close>

text \<open>The lines of one paragraph in order, as a description to compare the loops with.\<close>

definition link_of :: "Paragraph \<Rightarrow> PangoLayoutLine list \<Rightarrow> nat \<Rightarrow> LineLink" where
  "link_of para lines i =
     \<lparr>pango_line = lines ! i, logical_rect = line_logical (lines ! i),
      ink_rect = line_ink (lines ! i),
      formfeed = (para_formfeed para \<and> Suc i = length lines)\<rparr>"

definition links_of :: "shaper \<Rightarrow> Paragraph \<Rightarrow> LineLink list" where
  "links_of shape para = map (link_of para (shape (para_layout para))) [0..<length (shape (para_layout para))]"

text \<open>Two states of the loop with the same cursor, the same previous line, and layout
  records that agree on the column count and on lpi.\<close>

definition same_cursor :: "out_state \<Rightarrow> out_state \<Rightarrow> bool" where
  "same_cursor s t \<longleftrightarrow>
     column_idx s = column_idx t \<and> column_y_pos s = column_y_pos t \<and> page_idx s = page_idx t
     \<and> prev_line_link s = prev_line_link t
     \<and> num_columns (st_layout s) = num_columns (st_layout t)
     \<and> lpi (st_layout s) = lpi (st_layout t)"

text \<open>What a call on the context may be when there is one column: no call of
  \<^verbatim>\<open>eject_column\<close>, and a line is moved to the left margin, or right to left to the
  left margin plus what the line leaves free of the column.\<close>

definition single_column_call :: "page_layout_t \<Rightarrow> LineLink list \<Rightarrow> issuer \<times> cairo_call \<Rightarrow> bool" where
  "single_column_call pl lines c \<longleftrightarrow>
     fst c \<noteq> In_eject_column
     \<and> (\<forall>x y. c = (In_draw_line_to_page, Move_to x y) \<longrightarrow>
           (if pango_dir pl = PANGO_DIRECTION_RTL
            then \<exists>l\<in>set lines. x = real_of_int (left_margin pl
                    + (column_width pl - rect_width (line_logical (pango_line l)) sdiv PANGO_SCALE))
            else x = real_of_int (left_margin pl)))"

text \<open>The invariant of the loop when there is one column.\<close>

definition single_column_inv :: "page_layout_t \<Rightarrow> LineLink list \<Rightarrow> out_state \<Rightarrow> bool" where
  "single_column_inv pl lines s \<longleftrightarrow>
     column_idx s = 0 \<and> (\<exists>hh. st_layout s = pl\<lparr>header_height := hh\<rparr>)
     \<and> (\<forall>c\<in>set (st_cr s). single_column_call pl lines c)"

text \<open>An offset of the text at which \<^verbatim>\<open>g_utf8_get_char\<close> gives a character that is no
  paragraph boundary.\<close>

definition plain_at :: "gchar list \<Rightarrow> nat \<Rightarrow> bool" where
  "plain_at text p \<longleftrightarrow>
     p < length text \<and> g_utf8_get_char (drop p text) \<notin> {INVALID_CHAR, 0, 10, 12}"

text \<open>What is read of a paragraph: offset, length, formfeed flag and the text given to
  its layout.\<close>

definition para_view :: "Paragraph \<Rightarrow> nat \<times> nat \<times> bool \<times> gchar list" where
  "para_view p = (para_text p, para_length p, para_formfeed p, layout_text (para_layout p))"

text \<open>The cells of a text: the sum of the widths that are not negative.\<close>

definition cell_count :: "(gunichar \<Rightarrow> int) \<Rightarrow> gunichar list \<Rightarrow> nat" where
  "cell_count wcw str = sum_list (map (\<lambda>c. nat (wcw c)) str)"

text \<open>The transformations in force after a sequence of calls, from those in force before
  it; and those that \<^verbatim>\<open>start_page\<close> leaves in force.\<close>

definition ctm_after :: "cairo_call list \<Rightarrow> cairo_t \<Rightarrow> cairo_call list" where
  "ctm_after m cr = foldl ctm_step m (map snd cr)"

definition page_ctm :: "env \<Rightarrow> page_layout_t \<Rightarrow> cairo_call list" where
  "page_ctm e page_layout =
     (if do_landscape page_layout \<and> output_format e = FORMAT_POSTSCRIPT
      then [Translate (page_height page_layout) 0, Rotate (pi / 2)] else [])"

subsection \<open>Sample values\<close>

text \<open>An A4 portrait page with the default margins of \<^verbatim>\<open>main\<close> (36 points), one column
  and no header: the column is 523 by 769 points.\<close>

definition sample_layout :: page_layout_t where
  "sample_layout =
     \<lparr>column_width = 523, column_height = 769, num_columns = 1, gutter_width = 40,
      top_margin = 36, bottom_margin = 36, left_margin = 36, right_margin = 36,
      page_width = 595.28, page_height = 841.89,
      header_sep = 0, header_height = 0, footer_height = 0,
      scale_x = Finite 1, scale_y = Finite 1,
      do_landscape = False, do_justify = False, do_separation_line = True,
      do_wordwrap = True, do_stretch_chars = False,
      pango_dir = PANGO_DIRECTION_LTR, lpi = 0, cpi = 0, cups_mode = False\<rparr>"

definition sample_rect :: "int \<Rightarrow> int \<Rightarrow> PangoRectangle" where
  "sample_rect w h = \<lparr>rect_x = 0, rect_y = 0, rect_width = w, rect_height = h\<rparr>"

definition sample_line :: "nat \<Rightarrow> int \<Rightarrow> int \<Rightarrow> PangoLayoutLine" where
  "sample_line n w h = \<lparr>line_id = n, line_ink = sample_rect w h, line_logical = sample_rect w h\<rparr>"

definition sample_link :: "nat \<Rightarrow> int \<Rightarrow> int \<Rightarrow> bool \<Rightarrow> LineLink" where
  "sample_link n w h ff =
     \<lparr>pango_line = sample_line n w h, logical_rect = sample_rect w h,
      ink_rect = sample_rect w h, formfeed = ff\<rparr>"

definition sample_env :: env where
  "sample_env =
     \<lparr>output_format = FORMAT_POSTSCRIPT,
      header_layout = (\<lambda>n. (sample_line 0 204800 36864, sample_line 1 102400 36864,
                             sample_line 2 61440 36864))\<rparr>"

definition sample_state :: "int \<Rightarrow> int \<Rightarrow> int \<Rightarrow> LineLink option \<Rightarrow> page_layout_t \<Rightarrow> out_state" where
  "sample_state c y n prev page_layout =
     \<lparr>column_idx = c, column_y_pos = y, page_idx = n, prev_line_link = prev,
      st_cr = [], st_layout = page_layout\<rparr>"

text \<open>A stand-in for the shaper: an empty text is one line, a single byte is one line as
  many points high as the value of the byte, a longer text is two lines.\<close>

fun sample_lines :: "gchar list \<Rightarrow> PangoLayoutLine list" where
  "sample_lines [] = [sample_line 0 0 12288]"
| "sample_lines [c] = [sample_line 1 10240 (int c * 1024)]"
| "sample_lines (c # cs) = [sample_line 1 512000 12288, sample_line 2 (int (length cs) * 10240) 12288]"

definition sample_shape :: shaper where
  "sample_shape l = sample_lines (layout_text l)"

definition sample_para :: "nat \<Rightarrow> gchar list \<Rightarrow> bool \<Rightarrow> Paragraph" where
  "sample_para start t ff =
     \<lparr>para_text = start, para_length = length t, para_height = 0, para_formfeed = ff,
      para_layout = \<lparr>layout_text = t, layout_width = 523 * 1024,
                     layout_wrap = PANGO_WRAP_WORD_CHAR, layout_justify = False,
                     layout_alignment = PANGO_ALIGN_LEFT\<rparr>\<rparr>"

text \<open>Three columns on the A4 page, laid out right to left: the gutter total is 80 points
  and a column is 147 points wide.\<close>

definition sample_rtl3 :: page_layout_t where
  "sample_rtl3 = sample_layout\<lparr>num_columns := 3, column_width := 147,
                               pango_dir := PANGO_DIRECTION_RTL\<rparr>"

text \<open>A stand-in for \<^verbatim>\<open>wcwidth\<close> (control characters have no width, the block from
  U+3000 to U+9FFF is two cells wide, the rest one cell) and for the width Pango measures.\<close>

definition sample_scan_env :: scan_env where
  "sample_scan_env =
     \<lparr>wcwidth = (\<lambda>c. if c < 32 \<or> c = 127 then -1
                     else if 12288 \<le> c \<and> c \<le> 40959 then 2 else 1),
      layout_logical_width = (\<lambda>l. int (length (layout_text l)) * 7373)\<rparr>"

text \<open>The bytes of \<open>n\<close> times the letter U+3042, which is two cells wide.\<close>

definition sample_wide :: "nat \<Rightarrow> gchar list" where
  "sample_wide n = concat (replicate n [227, 129, 130])"

text \<open>The layout record of the example: cpi = 10 and a column of 360 points.\<close>

definition sample_cpi_layout :: page_layout_t where
  "sample_cpi_layout = sample_layout\<lparr>cpi := 10, column_width := 360\<rparr>"

text \<open>A column of 10 points at cpi = 10: the budget is one character.\<close>

definition sample_narrow_layout :: page_layout_t where
  "sample_narrow_layout = sample_layout\<lparr>cpi := 10, column_width := 10\<rparr>"

section \<open>Properties\<close>

subsection \<open>Rounding to double precision\<close>

lemma bit_length_bounds:
  "0 < n \<Longrightarrow> 2 ^ (bit_length n - 1) \<le> n \<and> n < 2 ^ bit_length n"
proof (induction n rule: bit_length.induct)
  case (1 n)
  show ?case
  proof (cases "n div 2 = 0")
    case True
    with 1 have "n = 1" by presburger
    then show ?thesis by (simp add: bit_length.simps)
  next
    case False
    then have pos: "0 < n div 2" by simp
    from 1 have n0: "n \<noteq> 0" by simp
    from 1(1)[OF n0 pos] have ih: "2 ^ (bit_length (n div 2) - 1) \<le> n div 2" "n div 2 < 2 ^ bit_length (n div 2)"
      by simp_all
    have bl: "bit_length n = Suc (bit_length (n div 2))"
      using n0 by (subst bit_length.simps) simp
    have bpos: "0 < bit_length (n div 2)"
      using pos by (subst bit_length.simps) simp
    then obtain k where k: "bit_length (n div 2) = Suc k" by (cases "bit_length (n div 2)") simp_all
    from ih have "2 * 2 ^ k \<le> 2 * (n div 2)" by (simp add: k)
    also have "\<dots> \<le> n" by simp
    finally have lo: "2 ^ (bit_length n - 1) \<le> n" by (simp add: bl k)
    from ih(2) have "n div 2 + 1 \<le> 2 ^ bit_length (n div 2)" by simp
    then have "2 * (n div 2) + 2 \<le> 2 * 2 ^ bit_length (n div 2)" by simp
    moreover have "n \<le> 2 * (n div 2) + 1" by presburger
    ultimately have hi: "n < 2 ^ bit_length n" by (simp add: bl)
    from lo hi show ?thesis by simp
  qed
qed

lemma bit_length_pos: "0 < n \<Longrightarrow> 0 < bit_length n"
  by (subst bit_length.simps) simp

lemma ilog2_bounds:
  assumes "0 < x"
  shows "2 powi ilog2 x \<le> x" and "x < 2 powi (ilog2 x + 1)"
proof -
  show "2 powi ilog2 x \<le> x"
  proof (cases "1 \<le> x")
    case True
    define n where "n = nat \<lfloor>x\<rfloor>"
    have n: "0 < n" "real n \<le> x" using True by (simp_all add: n_def)
    from bit_length_bounds[OF n(1)] have "2 ^ (bit_length n - 1) \<le> n" by simp
    then have "real (2 ^ (bit_length n - 1)) \<le> real n" by (simp only: of_nat_le_iff)
    then have "(2::real) ^ (bit_length n - 1) \<le> real n" by simp
    moreover have "ilog2 x = int (bit_length n - 1)"
      using True bit_length_pos[OF n(1)] by (simp add: ilog2_def n_def)
    ultimately have "2 powi ilog2 x \<le> real n" by (simp only: power_int_of_nat)
    then show ?thesis using n(2) by linarith
  next
    case False
    define m where "m = nat (\<lceil>1 / x\<rceil> - 1)"
    have x1: "1 < 1 / x" using False assms by simp
    then have c: "2 \<le> \<lceil>1 / x\<rceil>" by linarith
    then have m: "0 < m" "1 / x \<le> real m + 1" by (simp_all add: m_def) linarith
    from bit_length_bounds[OF m(1)] have "m < 2 ^ bit_length m" by simp
    then have "m + 1 \<le> 2 ^ bit_length m" by simp
    then have "real (m + 1) \<le> real (2 ^ bit_length m)" by (simp only: of_nat_le_iff)
    then have "real m + 1 \<le> 2 ^ bit_length m" by simp
    with m(2) have "1 / x \<le> 2 ^ bit_length m" by linarith
    then have "1 / 2 ^ bit_length m \<le> x" using assms
      by (simp add: field_simps)
    moreover have "ilog2 x = - int (bit_length m)"
      using False by (simp add: ilog2_def m_def)
    then have "2 powi ilog2 x = 1 / (2::real) ^ bit_length m"
      by (simp add: power_int_minus inverse_eq_divide)
    ultimately show ?thesis by simp
  qed
  show "x < 2 powi (ilog2 x + 1)"
  proof (cases "1 \<le> x")
    case True
    define n where "n = nat \<lfloor>x\<rfloor>"
    have n: "0 < n" "x < real n + 1" using True by (simp_all add: n_def)
    from bit_length_bounds[OF n(1)] have "n + 1 \<le> 2 ^ bit_length n" by simp
    then have "real (n + 1) \<le> real (2 ^ bit_length n)" by (simp only: of_nat_le_iff)
    then have "real n + 1 \<le> 2 ^ bit_length n" by simp
    moreover have "ilog2 x + 1 = int (bit_length n)"
      using True by (simp add: ilog2_def n_def)
    ultimately have "real n + 1 \<le> 2 powi (ilog2 x + 1)" by (simp only: power_int_of_nat)
    then show ?thesis using n(2) by linarith
  next
    case False
    define m where "m = nat (\<lceil>1 / x\<rceil> - 1)"
    have x1: "1 < 1 / x" using False assms by simp
    then have c: "2 \<le> \<lceil>1 / x\<rceil>" by linarith
    then have m: "0 < m" "real m < 1 / x" by (simp_all add: m_def) linarith
    from bit_length_bounds[OF m(1)] have "2 ^ (bit_length m - 1) \<le> m" by simp
    then have "real (2 ^ (bit_length m - 1)) \<le> real m" by (simp only: of_nat_le_iff)
    then have "(2::real) ^ (bit_length m - 1) \<le> real m" by simp
    with m(2) have "2 ^ (bit_length m - 1) < 1 / x" by linarith
    then have lt: "x < 1 / 2 ^ (bit_length m - 1)" using assms
      by (simp add: field_simps)
    have "ilog2 x + 1 = - int (bit_length m - 1)"
      using False bit_length_pos[OF m(1)] by (simp add: ilog2_def m_def)
    then have "2 powi (ilog2 x + 1) = 1 / (2::real) ^ (bit_length m - 1)"
      by (simp only: power_int_minus power_int_of_nat inverse_eq_divide)
    then show ?thesis using lt by simp
  qed
qed

lemma powi_two_less_iff: "(2::real) powi a < 2 powi b \<longleftrightarrow> a < b"
proof
  assume l: "(2::real) powi a < 2 powi b"
  show "a < b"
  proof (rule ccontr)
    assume "\<not> a < b"
    then have "(2::real) powi b \<le> 2 powi a" by (intro power_int_increasing) simp_all
    with l show False by simp
  qed
next
  assume "a < b"
  then show "(2::real) powi a < 2 powi b" by (intro power_int_strict_increasing) simp_all
qed

lemma ilog2_eqI:
  assumes "2 powi e \<le> x" and "x < 2 powi (e + 1)"
  shows "ilog2 x = e"
proof -
  have "(0::real) < 2 powi e" by simp
  with assms(1) have pos: "0 < x" by linarith
  from ilog2_bounds[OF pos] assms have "(2::real) powi e < 2 powi (ilog2 x + 1)"
    "(2::real) powi ilog2 x < 2 powi (e + 1)" by linarith+
  then have "e < ilog2 x + 1" "ilog2 x < e + 1" by (simp_all only: powi_two_less_iff)
  then show ?thesis by simp
qed

lemma round_even_error: "\<bar>real_of_int (round_even y) - y\<bar> \<le> 1 / 2"
proof -
  define f where "f = \<lfloor>y\<rfloor>"
  have b: "real_of_int f \<le> y" "y < real_of_int f + 1" unfolding f_def by linarith+
  consider "y - real_of_int f < 1 / 2" | "y - real_of_int f > 1 / 2" | "y - real_of_int f = 1 / 2"
    by linarith
  then show ?thesis
  proof cases
    case 1
    then have "round_even y = f" by (simp add: round_even_def f_def)
    then show ?thesis using 1 b by simp
  next
    case 2
    then have "round_even y = f + 1" by (simp add: round_even_def f_def)
    then show ?thesis using 2 b by simp
  next
    case 3
    then have "round_even y = f \<or> round_even y = f + 1"
      by (simp add: round_even_def f_def Let_def)
    then show ?thesis using 3 b by auto
  qed
qed

lemma round_evenI:
  "real_of_int f \<le> y \<Longrightarrow> y - real_of_int f < 1 / 2 \<Longrightarrow> round_even y = f"
  "real_of_int f - 1 \<le> y \<Longrightarrow> y - (real_of_int f - 1) > 1 / 2 \<Longrightarrow> y < real_of_int f \<Longrightarrow> round_even y = f"
  "y = real_of_int f \<Longrightarrow> round_even y = f"
proof -
  show "real_of_int f \<le> y \<Longrightarrow> y - real_of_int f < 1 / 2 \<Longrightarrow> round_even y = f"
  proof -
    assume a: "real_of_int f \<le> y" "y - real_of_int f < 1 / 2"
    then have "\<lfloor>y\<rfloor> = f" by linarith
    then show ?thesis using a by (simp add: round_even_def)
  qed
  show "real_of_int f - 1 \<le> y \<Longrightarrow> y - (real_of_int f - 1) > 1 / 2 \<Longrightarrow> y < real_of_int f \<Longrightarrow> round_even y = f"
  proof -
    assume a: "real_of_int f - 1 \<le> y" " y - (real_of_int f - 1) > 1 / 2" "y < real_of_int f"
    then have "\<lfloor>y\<rfloor> = f - 1" by linarith
    then show ?thesis using a by (simp add: round_even_def)
  qed
  show "y = real_of_int f \<Longrightarrow> round_even y = f"
    by (simp add: round_even_def)
qed

lemma to_double_eqI:
  assumes "2 powi e \<le> \<bar>x\<bar>" and "\<bar>x\<bar> < 2 powi (e + 1)" and "- 1022 \<le> e"
  shows "to_double x = sgn x * real_of_int (round_even (\<bar>x\<bar> / 2 powi (e - 52))) * 2 powi (e - 52)"
proof -
  have "ilog2 \<bar>x\<bar> = e" using assms(1,2) by (rule ilog2_eqI)
  moreover have "(0::real) < 2 powi e" by simp
  with assms(1) have "0 < \<bar>x\<bar>" by linarith
  then have "x \<noteq> 0" by simp
  ultimately show ?thesis using assms(3) by (simp add: to_double_def Let_def max_def)
qed

lemma to_double_error:
  assumes "2 powi (- 1022) \<le> \<bar>x\<bar>"
  shows "\<bar>to_double x - x\<bar> \<le> \<bar>x\<bar> * 2 powi (- 53)"
proof -
  have "(0::real) < 2 powi (- 1022)" by (rule zero_less_power_int) simp
  with assms have pos: "0 < \<bar>x\<bar>" by linarith
  define e where "e = ilog2 \<bar>x\<bar>"
  have b: "2 powi e \<le> \<bar>x\<bar>" "\<bar>x\<bar> < 2 powi (e + 1)"
    unfolding e_def using ilog2_bounds[OF pos] by simp_all
  have "(2::real) powi (- 1022) < 2 powi (e + 1)" using assms b(2) by linarith
  then have "- 1022 < e + 1" by (rule powi_two_less_iff[THEN iffD1])
  then have e: "- 1022 \<le> e" by simp
  define u where "u = (2::real) powi (e - 52)"
  have u: "0 < u" by (simp add: u_def)
  define k where "k = round_even (\<bar>x\<bar> / u)"
  have td: "to_double x = sgn x * real_of_int k * u"
    using to_double_eqI[OF b e] by (simp add: k_def u_def)
  have r: "\<bar>real_of_int k - \<bar>x\<bar> / u\<bar> \<le> 1 / 2" unfolding k_def by (rule round_even_error)
  have "real_of_int k * u - \<bar>x\<bar> = (real_of_int k - \<bar>x\<bar> / u) * u"
    using u by (simp add: left_diff_distrib)
  then have "\<bar>real_of_int k * u - \<bar>x\<bar>\<bar> = \<bar>real_of_int k - \<bar>x\<bar> / u\<bar> * u"
    using u by (simp only: abs_mult abs_of_pos)
  also have "\<dots> \<le> 1 / 2 * u" using r u by (intro mult_right_mono) simp_all
  finally have d: "\<bar>real_of_int k * u - \<bar>x\<bar>\<bar> \<le> u / 2" by simp
  have "to_double x - x = sgn x * (real_of_int k * u - \<bar>x\<bar>)"
    unfolding td by (simp only: right_diff_distrib sgn_mult_abs mult.assoc)
  then have "\<bar>to_double x - x\<bar> = \<bar>sgn x\<bar> * \<bar>real_of_int k * u - \<bar>x\<bar>\<bar>"
    by (simp only: abs_mult)
  also have "\<bar>sgn x\<bar> = 1" using pos by (simp add: abs_sgn_eq)
  finally have "\<bar>to_double x - x\<bar> \<le> u / 2" using d by simp
  also have "u = 2 powi e * 2 powi (- 52)"
    unfolding u_def using power_int_add[of "2::real" e "- 52"] by simp
  also have "2 powi e * 2 powi (- 52) / 2 = 2 powi e * ((2::real) powi (- 53))"
    by (simp add: power_int_minus)
  also have "\<dots> \<le> \<bar>x\<bar> * 2 powi (- 53)" using b(1) by (intro mult_right_mono) simp_all
  finally show ?thesis .
qed

lemma to_double_eval:
  assumes "2 powi e \<le> \<bar>x\<bar>" and "\<bar>x\<bar> < 2 powi (e + 1)" and "- 1022 \<le> e"
    and "round_even (\<bar>x\<bar> / 2 powi (e - 52)) = k"
  shows "to_double x = sgn x * real_of_int k * 2 powi (e - 52)"
  using to_double_eqI[OF assms(1-3)] assms(4) by simp

lemma to_double_nonneg: "0 \<le> x \<Longrightarrow> 0 \<le> to_double x"
proof -
  assume x: "0 \<le> x"
  have "0 \<le> round_even y" if "0 \<le> y" for y
  proof -
    from that have "0 \<le> \<lfloor>y\<rfloor>" by simp
    then show ?thesis by (simp add: round_even_def Let_def)
  qed
  then have "0 \<le> round_even (\<bar>x\<bar> / 2 powi (max (ilog2 \<bar>x\<bar>) (- 1022) - 52))" by simp
  then show ?thesis using x by (simp add: to_double_def Let_def sgn_if)
qed

lemma to_double_rel:
  assumes "1 / 2 ^ 40 \<le> x"
  shows "x * (1 - 1 / 2 ^ 53) \<le> to_double x" and "to_double x \<le> x * (1 + 1 / 2 ^ 53)"
proof -
  have "(2::real) powi (- 1022) \<le> 2 powi (- 40)" by (intro power_int_increasing) simp_all
  also have "(2::real) powi (- 40) = 1 / 2 ^ 40" by (simp add: power_int_minus inverse_eq_divide)
  finally have n: "2 powi (- 1022) \<le> \<bar>x\<bar>" using assms by linarith
  have pos: "0 < x" using assms by (smt (verit) zero_less_power divide_pos_pos zero_less_one)
  have d: "(2::real) powi (- 53) = 1 / 2 ^ 53" by (simp add: power_int_minus inverse_eq_divide)
  from to_double_error[OF n] have "\<bar>to_double x - x\<bar> \<le> x * (1 / 2 ^ 53)"
    using pos by (simp only: d abs_of_pos)
  then show "x * (1 - 1 / 2 ^ 53) \<le> to_double x" "to_double x \<le> x * (1 + 1 / 2 ^ 53)"
    by (simp_all only: right_diff_distrib distrib_left mult_1_right)
qed

text \<open>The three operations of \<^verbatim>\<open>1.0 / lpi * 72.0 * PANGO_SCALE\<close> together stay within
  \<open>2\<^sup>-\<^sup>2\<^sup>4\<close> of the quotient \<open>72 * 1024 / lpi\<close>.\<close>

lemma lpi_height_bounds:
  assumes "1 / 1024 \<le> l" and "l \<le> 73728"
  shows "\<bar>d_mul (d_mul (d_div 1 l) 72) 1024 - 73728 / l\<bar> \<le> 1 / 2 ^ 24"
proof -
  define d :: real where "d = 1 / 2 ^ 53"
  have d: "0 < d" "d < 1" by (simp_all add: d_def)
  have lpos: "0 < l" using assms(1) by linarith
  define a where "a = 1 / l"
  have a: "1 / 73728 \<le> a" "a \<le> 1024" using assms lpos by (simp_all add: a_def field_simps)
  define r1 where "r1 = to_double a"
  have r1: "a * (1 - d) \<le> r1" "r1 \<le> a * (1 + d)"
    unfolding r1_def d_def using a(1) by (intro to_double_rel; simp)+
  have a1: "1 / 73728 * (1 - d) \<le> a * (1 - d)" using a(1) d by (intro mult_right_mono) simp_all
  have r1lo: "1 / 2 ^ 20 \<le> r1" using r1(1) a1 by (simp add: d_def)
  define r2 where "r2 = to_double (r1 * 72)"
  have r2: "r1 * 72 * (1 - d) \<le> r2" "r2 \<le> r1 * 72 * (1 + d)"
    unfolding r2_def d_def using r1lo by (intro to_double_rel; simp)+
  have "1 / 2 ^ 20 * 72 * (1 - d) \<le> r1 * 72 * (1 - d)" using r1lo d by (intro mult_right_mono) simp_all
  then have r2lo: "1 / 2 ^ 20 \<le> r2" using r2(1) by (simp add: d_def)
  define r3 where "r3 = to_double (r2 * 1024)"
  have r3: "r2 * 1024 * (1 - d) \<le> r3" "r3 \<le> r2 * 1024 * (1 + d)"
    unfolding r3_def d_def using r2lo by (intro to_double_rel; simp)+
  have lh: "d_mul (d_mul (d_div 1 l) 72) 1024 = r3"
    by (simp add: d_mul_def d_div_def r3_def r2_def r1_def a_def)
  define X where "X = 73728 * a"
  have X: "0 < X" "X \<le> 2 ^ 27" using a by (simp_all add: X_def)
  have up: "r3 \<le> X * ((1 + d) * (1 + d) * (1 + d))"
  proof -
    have "r2 \<le> a * (1 + d) * 72 * (1 + d)" using r2(2) r1(2) d
      by (smt (verit) mult_right_mono)
    then have "r2 * 1024 * (1 + d) \<le> a * (1 + d) * 72 * (1 + d) * 1024 * (1 + d)" using d
      by (intro mult_right_mono) simp_all
    with r3(2) show ?thesis by (simp add: X_def mult_ac)
  qed
  have lo: "X * ((1 - d) * (1 - d) * (1 - d)) \<le> r3"
  proof -
    have "a * (1 - d) * 72 * (1 - d) \<le> r2" using r2(1) r1(1) d
      by (smt (verit) mult_right_mono)
    then have "a * (1 - d) * 72 * (1 - d) * 1024 * (1 - d) \<le> r2 * 1024 * (1 - d)" using d
      by (intro mult_right_mono) simp_all
    with r3(1) show ?thesis by (simp add: X_def mult_ac)
  qed
  have c1: "(1 + d) * (1 + d) * (1 + d) \<le> 1 + 4 * d" by (simp add: d_def)
  have c2: "1 - 4 * d \<le> (1 - d) * (1 - d) * (1 - d)" by (simp add: d_def)
  have "X * ((1 + d) * (1 + d) * (1 + d)) \<le> X * (1 + 4 * d)" using X(1) c1 by (intro mult_left_mono) simp_all
  with up have u: "r3 - X \<le> X * (4 * d)" by (simp add: distrib_left)
  have "X * (1 - 4 * d) \<le> X * ((1 - d) * (1 - d) * (1 - d))" using X(1) c2 by (intro mult_left_mono) simp_all
  with lo have l: "X - r3 \<le> X * (4 * d)" by (simp add: right_diff_distrib)
  have "X * (4 * d) \<le> 2 ^ 27 * (4 * d)" using X(2) d by (intro mult_right_mono) simp_all
  also have "\<dots> = 1 / 2 ^ 24" by (simp add: d_def)
  finally have "X * (4 * d) \<le> 1 / 2 ^ 24" .
  with u l have "\<bar>r3 - X\<bar> \<le> 1 / 2 ^ 24" by linarith
  then show ?thesis by (simp add: lh X_def a_def)
qed

text \<open>At lpi = 6 the quotient \<open>1 / 6\<close> is rounded, and the product with 72 is rounded back
  to 12.\<close>

lemma lpi_expr_6: "d_mul (d_mul (d_div 1 6) 72) 1024 = 12288"
proof -
  have t1: "to_double (1 / 6) = 6004799503160661 / 2 ^ 55"
    by (subst to_double_eval[where e = "- 3" and k = 6004799503160661])
       (simp_all add: power_int_minus round_even_def Let_def)
  have t2: "to_double (6004799503160661 / 2 ^ 55 * 72) = 12"
    by (subst to_double_eval[where e = 3 and k = 6755399441055744])
       (simp_all add: power_int_minus round_even_def Let_def)
  have t3: "to_double 12288 = 12288"
    by (subst to_double_eval[where e = 13 and k = 6755399441055744])
       (simp_all add: power_int_minus round_even_def Let_def)
  have n: "(12::real) * 1024 = 12288" by simp
  have s1: "d_div 1 6 = 6004799503160661 / 2 ^ 55" by (simp only: d_div_def t1)
  have s2: "d_mul (d_div 1 6) 72 = 12" by (simp only: s1 d_mul_def t2)
  show ?thesis unfolding s2 by (simp only: d_mul_def n t3)
qed

text \<open>The double nearest to \<open>12 / 14\<close>.\<close>

lemma scale_12_14: "to_double (12 / 14) = 7720456504063707 / 2 ^ 53"
  by (subst to_double_eval[where e = "- 1" and k = 7720456504063707])
     (simp_all add: power_int_minus round_even_def Let_def)

subsection \<open>What one iteration of the loop does to the cursor\<close>

lemma begin_page_fields:
  "column_idx (begin_page e nh s) = column_idx s"
  "column_y_pos (begin_page e nh s) = column_y_pos s"
  "page_idx (begin_page e nh s) = page_idx s"
  "prev_line_link (begin_page e nh s) = prev_line_link s"
  by (simp_all add: begin_page_def Let_def split: prod.splits)

lemma header_layout_fields:
  "\<exists>h. snd (draw_page_header_line_to_page e cr False pl n) = pl\<lparr>header_height := h\<rparr>"
  by (auto simp: draw_page_header_line_to_page_def Let_def split: prod.splits)

lemma begin_page_layout:
  "\<exists>h. st_layout (begin_page e nh s) = (st_layout s)\<lparr>header_height := h\<rparr>"
proof (cases nh)
  case True
  obtain h where "snd (draw_page_header_line_to_page e
      (start_page e (st_cr s) (st_layout s) (page_idx s)) False (st_layout s) (page_idx s))
      = (st_layout s)\<lparr>header_height := h\<rparr>"
    using header_layout_fields by blast
  with True show ?thesis
    by (auto simp: begin_page_def Let_def split: prod.splits)
next
  case False
  have "st_layout (begin_page e nh s)
        = (st_layout s)\<lparr>header_height := header_height (st_layout s)\<rparr>"
    using False by (simp add: begin_page_def Let_def)
  then show ?thesis by blast
qed

lemma next_column_layout:
  "\<exists>h. st_layout (next_column e nh s) = (st_layout s)\<lparr>header_height := h\<rparr>"
proof (cases "column_idx s + 1 = num_columns (st_layout s)")
  case True
  let ?t = "s\<lparr>column_y_pos := 0, column_idx := 0, st_cr := eject_page (st_cr s),
               page_idx := page_idx s + 1\<rparr>"
  have "next_column e nh s = begin_page e nh ?t"
    using True by (simp add: next_column_def Let_def)
  moreover obtain h where "st_layout (begin_page e nh ?t) = (st_layout ?t)\<lparr>header_height := h\<rparr>"
    using begin_page_layout by blast
  ultimately show ?thesis by auto
next
  case False
  then have "st_layout (next_column e nh s)
             = (st_layout s)\<lparr>header_height := header_height (st_layout s)\<rparr>"
    by (simp add: next_column_def Let_def)
  then show ?thesis by blast
qed

lemma next_column_fields:
  "column_y_pos (next_column e nh s) = 0"
  "prev_line_link (next_column e nh s) = prev_line_link s"
  "column_idx (next_column e nh s)
     = (if column_idx s + 1 = num_columns (st_layout s) then 0 else column_idx s + 1)"
  "page_idx (next_column e nh s)
     = (if column_idx s + 1 = num_columns (st_layout s) then page_idx s + 1 else page_idx s)"
  by (simp_all add: next_column_def Let_def begin_page_fields)

lemma line_height_header: "line_height (pl\<lparr>header_height := h\<rparr>) l = line_height pl l"
  by (simp add: line_height_def)

lemma next_column_line_height:
  "line_height (st_layout (next_column e nh s)) l = line_height (st_layout s) l"
  using next_column_layout[of e nh s] by (auto simp: line_height_header)

lemma loop_body_break:
  assumes "need_break h s l"
  shows "column_y_pos (loop_body e nh h s l) = line_height (st_layout s) l"
    and "column_idx (loop_body e nh h s l)
           = (if column_idx s + 1 = num_columns (st_layout s) then 0 else column_idx s + 1)"
    and "page_idx (loop_body e nh h s l)
           = (if column_idx s + 1 = num_columns (st_layout s) then page_idx s + 1
              else page_idx s)"
  using assms
  by (simp_all add: loop_body_def Let_def next_column_fields next_column_line_height)

lemma loop_body_no_break:
  assumes "\<not> need_break h s l"
  shows "column_y_pos (loop_body e nh h s l) = column_y_pos s + line_height (st_layout s) l"
    and "column_idx (loop_body e nh h s l) = column_idx s"
    and "page_idx (loop_body e nh h s l) = page_idx s"
  using assms by (simp_all add: loop_body_def Let_def)

lemma loop_body_prev: "prev_line_link (loop_body e nh h s l) = Some l"
  by (simp add: loop_body_def Let_def)

lemma loop_body_layout:
  "\<exists>hh. st_layout (loop_body e nh h s l) = (st_layout s)\<lparr>header_height := hh\<rparr>"
proof (cases "need_break h s l")
  case True
  then have "st_layout (loop_body e nh h s l) = st_layout (next_column e nh s)"
    by (simp add: loop_body_def Let_def)
  then show ?thesis using next_column_layout[of e nh s] by simp
next
  case False
  then have "st_layout (loop_body e nh h s l)
             = (st_layout s)\<lparr>header_height := header_height (st_layout s)\<rparr>"
    by (simp add: loop_body_def Let_def)
  then show ?thesis by blast
qed

lemma need_break_iff:
  "need_break h s l \<longleftrightarrow>
     (column_y_pos s + rect_height (logical_rect l) \<ge> h
      \<or> (\<exists>prev. prev_line_link s = Some prev \<and> formfeed prev))"
  by (auto simp: need_break_def split: option.splits)

lemma line_height_lpi:
  assumes "lpi pl > 0"
  shows "line_height pl l = \<lfloor>d_mul (d_mul (d_div 1 (lpi pl)) 72) 1024\<rfloor>"
proof -
  have "0 \<le> d_div 1 (lpi pl)" using assms by (simp add: d_div_def to_double_nonneg)
  then have "0 \<le> d_mul (d_div 1 (lpi pl)) 72" by (simp add: d_mul_def to_double_nonneg)
  then have "0 \<le> d_mul (d_mul (d_div 1 (lpi pl)) 72) 1024" by (simp add: d_mul_def to_double_nonneg)
  then show ?thesis using assms by (simp add: line_height_def c_trunc_def PANGO_SCALE_def)
qed

subsection \<open>The overflow test and the advance\<close>

text \<open>
  Claim C5. A line whose natural logical height exactly fills what is left of the column
  (\<open>column_y_pos + height = pango_column_height\<close>) is not placed there: the comparison is
  \<open>\<ge>\<close>, so the iteration moves to the next column first, or to the next page when that
  column was the last one, and the line is placed at the top (offset 0, then advanced by
  its height).
\<close>

theorem exact_fit_breaks:
  assumes "column_y_pos s + rect_height (logical_rect line_link) = h"
  shows "need_break h s line_link
       \<and> column_y_pos (loop_body e need_header h s line_link)
           = 0 + line_height (st_layout s) line_link
       \<and> (if column_idx s + 1 = num_columns (st_layout s)
          then column_idx (loop_body e need_header h s line_link) = 0
               \<and> page_idx (loop_body e need_header h s line_link) = page_idx s + 1
          else column_idx (loop_body e need_header h s line_link) = column_idx s + 1
               \<and> page_idx (loop_body e need_header h s line_link) = page_idx s)"
proof -
  have b: "need_break h s line_link"
    using assms by (simp add: need_break_def)
  show ?thesis
    using b loop_body_break[OF b, of e need_header] by simp
qed

text \<open>On the sample page (column height 769 points, 787456 Pango units) a 12-point line
  met at offset 775168 fills the column exactly, and goes to page 2.\<close>

theorem exact_fit_breaks_witness:
  "column_y_pos (sample_state 0 775168 1 None sample_layout)
     + rect_height (logical_rect (sample_link 7 102400 12288 False))
     = column_height sample_layout * PANGO_SCALE
   \<and> page_idx (loop_body sample_env False (column_height sample_layout * PANGO_SCALE)
        (sample_state 0 775168 1 None sample_layout) (sample_link 7 102400 12288 False)) = 2
   \<and> column_idx (loop_body sample_env False (column_height sample_layout * PANGO_SCALE)
        (sample_state 0 775168 1 None sample_layout) (sample_link 7 102400 12288 False)) = 0
   \<and> column_y_pos (loop_body sample_env False (column_height sample_layout * PANGO_SCALE)
        (sample_state 0 775168 1 None sample_layout) (sample_link 7 102400 12288 False)) = 12288"
proof -
  have h: "column_y_pos (sample_state 0 775168 1 None sample_layout)
     + rect_height (logical_rect (sample_link 7 102400 12288 False))
     = column_height sample_layout * PANGO_SCALE"
    by (simp add: sample_state_def sample_link_def sample_rect_def sample_layout_def
        PANGO_SCALE_def)
  show ?thesis
    using h exact_fit_breaks[OF h, of sample_env False]
    by (simp add: sample_state_def sample_link_def sample_rect_def sample_layout_def
        line_height_def)
qed

text \<open>
  Claim C3. With \<open>lpi > 0\<close> the iteration decides the break on the natural logical height
  of the line (break iff \<open>column_y_pos + natural height \<ge> pango_column_height\<close>, or the
  previous line carries the formfeed flag), and advances the offset by the height derived
  from lpi, \<open>\<lfloor>1 / lpi * 72 * PANGO_SCALE\<rfloor>\<close> with the quotient and the two products in double
  precision, whatever the natural height is. For an lpi from 1/1024 to 73728 the three
  roundings leave the product within \<open>2\<^sup>-\<^sup>2\<^sup>4\<close> of the quotient \<open>72 * 1024 / lpi\<close>.
\<close>

theorem lpi_break_and_advance:
  assumes "lpi (st_layout s) > 0"
  shows "((page_idx (loop_body e need_header h s line_link),
           column_idx (loop_body e need_header h s line_link))
            \<noteq> (page_idx s, column_idx s)
           \<longleftrightarrow> (column_y_pos s + rect_height (logical_rect line_link) \<ge> h
                \<or> (\<exists>prev. prev_line_link s = Some prev \<and> formfeed prev)))
       \<and> column_y_pos (loop_body e need_header h s line_link) =
           (if column_y_pos s + rect_height (logical_rect line_link) \<ge> h
               \<or> (\<exists>prev. prev_line_link s = Some prev \<and> formfeed prev)
            then 0 else column_y_pos s)
           + \<lfloor>d_mul (d_mul (d_div 1 (lpi (st_layout s))) 72) 1024\<rfloor>
       \<and> (1 / 1024 \<le> lpi (st_layout s) \<and> lpi (st_layout s) \<le> 73728 \<longrightarrow>
            \<bar>d_mul (d_mul (d_div 1 (lpi (st_layout s))) 72) 1024
               - 72 * 1024 / lpi (st_layout s)\<bar> \<le> 1 / 2 ^ 24)"
proof -
  have lh: "line_height (st_layout s) line_link
      = \<lfloor>d_mul (d_mul (d_div 1 (lpi (st_layout s))) 72) 1024\<rfloor>"
    using assms by (rule line_height_lpi)
  have bd: "1 / 1024 \<le> lpi (st_layout s) \<and> lpi (st_layout s) \<le> 73728 \<longrightarrow>
            \<bar>d_mul (d_mul (d_div 1 (lpi (st_layout s))) 72) 1024
               - 72 * 1024 / lpi (st_layout s)\<bar> \<le> 1 / 2 ^ 24"
    using lpi_height_bounds[of "lpi (st_layout s)"] by simp
  show ?thesis
  proof (cases "need_break h s line_link")
    case True
    with loop_body_break[OF True, of e need_header] need_break_iff[of h s line_link] lh bd
    show ?thesis by (auto split: if_splits)
  next
    case False
    with loop_body_no_break[OF False, of e need_header] need_break_iff[of h s line_link] lh bd
    show ?thesis by auto
  qed
qed

text \<open>With lpi = 6 the advance is 12288 units (12 points). A line of natural height 20
  points met at offset 750 points does not fit by its natural height (770 \<ge> 769) although a
  12-point row would: it breaks. A line of natural height 10 points there does not break,
  and advances by 12 points all the same.\<close>

theorem lpi_break_and_advance_witness:
  "lpi (st_layout (sample_state 0 768000 1 None (sample_layout\<lparr>lpi := 6\<rparr>))) > 0
   \<and> (page_idx (loop_body sample_env False 787456
         (sample_state 0 768000 1 None (sample_layout\<lparr>lpi := 6\<rparr>))
         (sample_link 7 102400 20480 False)),
      column_idx (loop_body sample_env False 787456
         (sample_state 0 768000 1 None (sample_layout\<lparr>lpi := 6\<rparr>))
         (sample_link 7 102400 20480 False))) \<noteq> (1, 0)
   \<and> column_y_pos (loop_body sample_env False 787456
        (sample_state 0 768000 1 None (sample_layout\<lparr>lpi := 6\<rparr>))
        (sample_link 7 102400 20480 False)) = 12288
   \<and> (page_idx (loop_body sample_env False 787456
         (sample_state 0 768000 1 None (sample_layout\<lparr>lpi := 6\<rparr>))
         (sample_link 8 102400 10240 False)),
      column_idx (loop_body sample_env False 787456
         (sample_state 0 768000 1 None (sample_layout\<lparr>lpi := 6\<rparr>))
         (sample_link 8 102400 10240 False))) = (1, 0)
   \<and> column_y_pos (loop_body sample_env False 787456
        (sample_state 0 768000 1 None (sample_layout\<lparr>lpi := 6\<rparr>))
        (sample_link 8 102400 10240 False)) = 780288
   \<and> 1 / 1024 \<le> lpi (st_layout (sample_state 0 768000 1 None (sample_layout\<lparr>lpi := 6\<rparr>)))
   \<and> lpi (st_layout (sample_state 0 768000 1 None (sample_layout\<lparr>lpi := 6\<rparr>))) \<le> 73728
   \<and> \<bar>d_mul (d_mul (d_div 1 6) 72) 1024 - 72 * 1024 / 6\<bar> \<le> 1 / 2 ^ 24"
proof -
  let ?s = "sample_state 0 768000 1 None (sample_layout\<lparr>lpi := 6\<rparr>)"
  let ?tall = "sample_link 7 102400 20480 False"
  let ?short = "sample_link 8 102400 10240 False"
  have p: "lpi (st_layout ?s) > 0"
    by (simp add: sample_state_def sample_layout_def)
  have s: "column_y_pos ?s = 768000" "prev_line_link ?s = None" "page_idx ?s = 1"
    "column_idx ?s = 0" "lpi (st_layout ?s) = 6"
    by (simp_all add: sample_state_def sample_layout_def)
  have l: "rect_height (logical_rect ?tall) = 20480" "rect_height (logical_rect ?short) = 10240"
    by (simp_all add: sample_link_def sample_rect_def)
  have a: "(page_idx (loop_body sample_env False 787456 ?s ?tall),
            column_idx (loop_body sample_env False 787456 ?s ?tall)) \<noteq> (1, 0)
         \<and> column_y_pos (loop_body sample_env False 787456 ?s ?tall) = 12288
         \<and> \<bar>d_mul (d_mul (d_div 1 6) 72) 1024 - 72 * 1024 / 6\<bar> \<le> 1 / 2 ^ 24"
    using lpi_break_and_advance[OF p, of sample_env False 787456 ?tall]
    unfolding s l by (simp add: lpi_expr_6)
  have b: "(page_idx (loop_body sample_env False 787456 ?s ?short),
            column_idx (loop_body sample_env False 787456 ?s ?short)) = (1, 0)
         \<and> column_y_pos (loop_body sample_env False 787456 ?s ?short) = 780288"
    using lpi_break_and_advance[OF p, of sample_env False 787456 ?short]
    unfolding s l by (simp add: lpi_expr_6)
  have r: "1 / 1024 \<le> lpi (st_layout ?s)" "lpi (st_layout ?s) \<le> 73728"
    unfolding s by simp_all
  show ?thesis using p a b r by blast
qed

text \<open>The rounding shows in the result. At the double nearest to 7.2 the quotient
  \<open>72 * 1024 / lpi\<close> is just below 10240, and the program advances by 10240: the quotient
  \<open>1 / lpi\<close> is rounded up, and its product with 72 is rounded to 10.\<close>

lemma lpi_advance_rounded:
  "\<lfloor>d_mul (d_mul (d_div 1 (8106479329266893 / 2 ^ 50)) 72) 1024\<rfloor> = 10240
   \<and> \<lfloor>72 * 1024 / (8106479329266893 / 2 ^ 50 :: real)\<rfloor> = 10239"
proof -
  have q: "1 / (8106479329266893 / 2 ^ 50 :: real) = 2 ^ 50 / 8106479329266893" by simp
  have t1: "to_double (2 ^ 50 / 8106479329266893) = 5003999585967218 / 2 ^ 55"
    by (subst to_double_eval[where e = "- 3" and k = 5003999585967218])
       (simp_all add: power_int_minus round_even_def Let_def)
  have t2: "to_double (5003999585967218 / 2 ^ 55 * 72) = 10"
    by (subst to_double_eval[where e = 3 and k = 5629499534213120])
       (simp_all add: power_int_minus round_even_def Let_def)
  have t3: "to_double 10240 = 10240"
    by (subst to_double_eval[where e = 13 and k = 5629499534213120])
       (simp_all add: power_int_minus round_even_def Let_def)
  have n: "(10::real) * 1024 = 10240" by simp
  have s1: "d_div 1 (8106479329266893 / 2 ^ 50) = 5003999585967218 / 2 ^ 55"
    by (simp only: d_div_def q t1)
  have s2: "d_mul (d_div 1 (8106479329266893 / 2 ^ 50)) 72 = 10" by (simp only: s1 d_mul_def t2)
  have "d_mul (d_mul (d_div 1 (8106479329266893 / 2 ^ 50)) 72) 1024 = 10240"
    unfolding s2 by (simp only: d_mul_def n t3)
  then show ?thesis by simp
qed

subsection \<open>The line stream\<close>

lemma for_line_fst: "fst (for_line para lines acc i) = link_of para lines i # fst acc"
  by (cases acc) (auto simp: for_line_def link_of_def Let_def pango_layout_line_get_extents_def)

lemma foldl_for_line_fst:
  "fst (foldl (for_line para lines) acc is) = rev (map (link_of para lines) is) @ fst acc"
  by (induction "is" arbitrary: acc) (simp_all add: for_line_fst)

lemma for_paragraph_fst: "fst (for_paragraph shape acc para) = rev (links_of shape para) @ fst acc"
  by (simp add: for_paragraph_def Let_def foldl_for_line_fst links_of_def)

lemma foldl_for_paragraph_fst:
  "fst (foldl (for_paragraph shape) acc ps) = rev (concat (map (links_of shape) ps)) @ fst acc"
  by (induction ps arbitrary: acc) (simp_all add: for_paragraph_fst)

lemma split_lines: "fst (split_paragraphs_into_lines shape pl ps) = concat (map (links_of shape) ps)"
  using foldl_for_paragraph_fst[of shape "([], 0)" ps]
  by (auto simp: split_paragraphs_into_lines_def Let_def split: prod.splits)

lemma split_layout: "\<exists>sy. snd (split_paragraphs_into_lines shape pl ps) = pl\<lparr>scale_y := sy\<rparr>"
proof (cases "do_stretch_chars pl \<and> lpi pl > 0")
  case True
  then show ?thesis by (auto simp: split_paragraphs_into_lines_def Let_def split: prod.splits)
next
  case False
  then have "snd (split_paragraphs_into_lines shape pl ps) = pl\<lparr>scale_y := scale_y pl\<rparr>"
    by (auto simp: split_paragraphs_into_lines_def Let_def split: prod.splits)
  then show ?thesis by blast
qed

lemma length_links_of: "length (links_of shape para) = length (shape (para_layout para))"
  by (simp add: links_of_def)

lemma loop_states_length: "length (loop_states e nh h s ls) = length ls"
  by (induction ls arbitrary: s) (simp_all add: Let_def)

lemma loop_states_Suc:
  "Suc k < length ls \<Longrightarrow>
     loop_states e nh h s ls ! Suc k = loop_body e nh h (loop_states e nh h s ls ! k) (ls ! Suc k)"
proof (induction ls arbitrary: s k)
  case Nil then show ?case by simp
next
  case (Cons l ls)
  show ?case
  proof (cases k)
    case 0
    with Cons.prems show ?thesis by (cases ls) (simp_all add: Let_def)
  next
    case (Suc j)
    with Cons.prems have "Suc j < length ls" by simp
    from Cons.IH[OF this] Suc show ?thesis by (simp add: Let_def)
  qed
qed

lemma loop_states_prev:
  "k < length ls \<Longrightarrow> prev_line_link (loop_states e nh h s ls ! k) = Some (ls ! k)"
proof (induction ls arbitrary: s k)
  case Nil then show ?case by simp
next
  case (Cons l ls)
  then show ?case by (cases k) (simp_all add: Let_def loop_body_prev)
qed

lemma loop_states_layout:
  "k < length ls \<Longrightarrow> \<exists>hh. st_layout (loop_states e nh h s ls ! k) = (st_layout s)\<lparr>header_height := hh\<rparr>"
proof (induction ls arbitrary: s k)
  case Nil then show ?case by simp
next
  case (Cons l ls)
  obtain h1 where h1: "st_layout (loop_body e nh h s l) = (st_layout s)\<lparr>header_height := h1\<rparr>"
    using loop_body_layout by blast
  show ?case
  proof (cases k)
    case 0
    then show ?thesis using h1 by (auto simp: Let_def)
  next
    case (Suc j)
    with Cons.prems have "j < length ls" by simp
    from Cons.IH[OF this, of "loop_body e nh h s l"] obtain hh where
      "st_layout (loop_states e nh h (loop_body e nh h s l) ls ! j) = (st_layout (loop_body e nh h s l))\<lparr>header_height := hh\<rparr>"
      by blast
    with h1 Suc show ?thesis by (auto simp: Let_def)
  qed
qed

lemma init_state_layout: "\<exists>hh. st_layout (init_state e nh cr pl) = pl\<lparr>header_height := hh\<rparr>"
  using begin_page_layout[of e nh "\<lparr>column_idx = 0, column_y_pos = 0, page_idx = 1, prev_line_link = None,
        st_cr = cr, st_layout = pl\<rparr>"] by (simp add: init_state_def)


lemma states_layout:
  assumes "k < length ls"
  shows "\<exists>hh. st_layout (loop_states e nh h (init_state e nh cr pl) ls ! k) = pl\<lparr>header_height := hh\<rparr>"
proof -
  obtain h0 where h0: "st_layout (init_state e nh cr pl) = pl\<lparr>header_height := h0\<rparr>"
    using init_state_layout by blast
  obtain h1 where "st_layout (loop_states e nh h (init_state e nh cr pl) ls ! k)
       = (st_layout (init_state e nh cr pl))\<lparr>header_height := h1\<rparr>"
    using loop_states_layout[OF assms] by blast
  with h0 show ?thesis by auto
qed

lemma break_after_formfeed:
  assumes "Suc k < length ls" and "formfeed (ls ! k)"
  shows "column_y_pos (loop_states e nh h (init_state e nh cr pl) ls ! Suc k)
           = 0 + line_height pl (ls ! Suc k)
       \<and> (if column_idx (loop_states e nh h (init_state e nh cr pl) ls ! k) + 1 = num_columns pl
          then column_idx (loop_states e nh h (init_state e nh cr pl) ls ! Suc k) = 0
               \<and> page_idx (loop_states e nh h (init_state e nh cr pl) ls ! Suc k)
                   = page_idx (loop_states e nh h (init_state e nh cr pl) ls ! k) + 1
          else column_idx (loop_states e nh h (init_state e nh cr pl) ls ! Suc k)
                   = column_idx (loop_states e nh h (init_state e nh cr pl) ls ! k) + 1
               \<and> page_idx (loop_states e nh h (init_state e nh cr pl) ls ! Suc k)
                   = page_idx (loop_states e nh h (init_state e nh cr pl) ls ! k))"
proof -
  let ?st = "loop_states e nh h (init_state e nh cr pl) ls"
  have k: "k < length ls" using assms(1) by simp
  have step: "?st ! Suc k = loop_body e nh h (?st ! k) (ls ! Suc k)"
    using assms(1) by (rule loop_states_Suc)
  have "prev_line_link (?st ! k) = Some (ls ! k)"
    using k by (rule loop_states_prev)
  then have nb: "need_break h (?st ! k) (ls ! Suc k)"
    using assms(2) by (simp add: need_break_def)
  obtain hh where hh: "st_layout (?st ! k) = pl\<lparr>header_height := hh\<rparr>"
    using states_layout[OF k] by blast
  have lh: "line_height (st_layout (?st ! k)) (ls ! Suc k) = line_height pl (ls ! Suc k)"
    by (simp add: hh line_height_header)
  have nc: "num_columns (st_layout (?st ! k)) = num_columns pl"
    by (simp add: hh)
  show ?thesis
    using loop_body_break[OF nb, of e nh] by (simp add: step lh nc)
qed

lemma lines_of_paragraph:
  assumes "j < length (shape (para_layout P))"
  shows "fst (split_paragraphs_into_lines shape pl (ps @ P # qs))
           ! (length (fst (split_paragraphs_into_lines shape pl ps)) + j)
         = link_of P (shape (para_layout P)) j"
proof -
  have "fst (split_paragraphs_into_lines shape pl (ps @ P # qs))
        = concat (map (links_of shape) ps) @ links_of shape P @ concat (map (links_of shape) qs)"
    by (simp add: split_lines)
  moreover have "length (fst (split_paragraphs_into_lines shape pl ps))
        = length (concat (map (links_of shape) ps))"
    by (simp add: split_lines)
  moreover have "j < length (links_of shape P)" using assms by (simp add: length_links_of)
  ultimately have "fst (split_paragraphs_into_lines shape pl (ps @ P # qs))
           ! (length (fst (split_paragraphs_into_lines shape pl ps)) + j) = links_of shape P ! j"
    by (simp add: nth_append)
  also have "\<dots> = link_of P (shape (para_layout P)) j"
    using assms by (simp add: links_of_def)
  finally show ?thesis .
qed

text \<open>
  Claim C1. Let \<open>P\<close> be a paragraph with the formfeed flag whose layout has at least one
  line. In the line stream that \<^verbatim>\<open>split_paragraphs_into_lines\<close> builds, the lines of
  \<open>P\<close> are those of its layout, in order, and the formfeed flag is set on the last of them
  and on no other. When a line follows it in the stream, \<^verbatim>\<open>output_pages\<close> places that
  line after a break, whatever room was left: its offset restarts at 0 (so after the
  advance it is the height of the line), and the column index is one more on the same page,
  or 0 on the next page when the column count is reached.
\<close>

theorem formfeed_paragraph_breaks:
  assumes ff: "para_formfeed P" and ne: "shape (para_layout P) \<noteq> []"
  shows
   "let lines = fst (split_paragraphs_into_lines shape pl (ps @ P # qs));
        pl' = snd (split_paragraphs_into_lines shape pl (ps @ P # qs));
        first = length (fst (split_paragraphs_into_lines shape pl ps));
        n = length (shape (para_layout P));
        k = first + n - 1;
        states = loop_states e nh (column_height pl' * PANGO_SCALE) (init_state e nh cr pl') lines
    in (\<forall>j<n. pango_line (lines ! (first + j)) = shape (para_layout P) ! j
              \<and> (formfeed (lines ! (first + j)) \<longleftrightarrow> j = n - 1))
     \<and> (Suc k < length lines \<longrightarrow>
          column_y_pos (states ! Suc k) = 0 + line_height pl' (lines ! Suc k)
          \<and> (if column_idx (states ! k) + 1 = num_columns pl
             then column_idx (states ! Suc k) = 0
                  \<and> page_idx (states ! Suc k) = page_idx (states ! k) + 1
             else column_idx (states ! Suc k) = column_idx (states ! k) + 1
                  \<and> page_idx (states ! Suc k) = page_idx (states ! k)))"
proof -
  define lines where "lines = fst (split_paragraphs_into_lines shape pl (ps @ P # qs))"
  define pl' where "pl' = snd (split_paragraphs_into_lines shape pl (ps @ P # qs))"
  define first where "first = length (fst (split_paragraphs_into_lines shape pl ps))"
  define n where "n = length (shape (para_layout P))"
  define k where "k = first + n - 1"
  have n0: "0 < n" using ne by (simp add: n_def)
  have a: "\<forall>j<n. pango_line (lines ! (first + j)) = shape (para_layout P) ! j
              \<and> (formfeed (lines ! (first + j)) \<longleftrightarrow> j = n - 1)"
  proof (intro allI impI)
    fix j assume j: "j < n"
    then have "lines ! (first + j) = link_of P (shape (para_layout P)) j"
      unfolding lines_def first_def n_def by (rule lines_of_paragraph)
    then show "pango_line (lines ! (first + j)) = shape (para_layout P) ! j
              \<and> (formfeed (lines ! (first + j)) \<longleftrightarrow> j = n - 1)"
      using ff j by (auto simp: link_of_def n_def)
  qed
  have kk: "k = first + (n - 1)" using n0 by (simp add: k_def)
  have "n - 1 < n" using n0 by simp
  with a have "formfeed (lines ! (first + (n - 1)))" by blast
  then have ffk: "formfeed (lines ! k)" by (simp only: kk)
  obtain sy where "pl' = pl\<lparr>scale_y := sy\<rparr>"
    using split_layout[of shape pl "ps @ P # qs"] unfolding pl'_def by blast
  then have nc: "num_columns pl' = num_columns pl" by simp
  have b: "Suc k < length lines \<longrightarrow>
          column_y_pos (loop_states e nh (column_height pl' * PANGO_SCALE) (init_state e nh cr pl') lines ! Suc k) = 0 + line_height pl' (lines ! Suc k)
          \<and> (if column_idx (loop_states e nh (column_height pl' * PANGO_SCALE) (init_state e nh cr pl') lines ! k) + 1 = num_columns pl
             then column_idx (loop_states e nh (column_height pl' * PANGO_SCALE) (init_state e nh cr pl') lines ! Suc k) = 0
                  \<and> page_idx (loop_states e nh (column_height pl' * PANGO_SCALE) (init_state e nh cr pl') lines ! Suc k) = page_idx (loop_states e nh (column_height pl' * PANGO_SCALE) (init_state e nh cr pl') lines ! k) + 1
             else column_idx (loop_states e nh (column_height pl' * PANGO_SCALE) (init_state e nh cr pl') lines ! Suc k) = column_idx (loop_states e nh (column_height pl' * PANGO_SCALE) (init_state e nh cr pl') lines ! k) + 1
                  \<and> page_idx (loop_states e nh (column_height pl' * PANGO_SCALE) (init_state e nh cr pl') lines ! Suc k) = page_idx (loop_states e nh (column_height pl' * PANGO_SCALE) (init_state e nh cr pl') lines ! k))"
    using break_after_formfeed[of k lines e nh "column_height pl' * PANGO_SCALE" cr pl'] ffk
    unfolding nc by blast
  show ?thesis
    using a b unfolding Let_def lines_def[symmetric] pl'_def[symmetric] first_def[symmetric]
      n_def[symmetric] k_def[symmetric] by blast
qed

lemma sample_shape_simps:
  "sample_shape (para_layout (sample_para a [] ff)) = [sample_line 0 0 12288]"
  "sample_shape (para_layout (sample_para a [c] ff)) = [sample_line 1 10240 (int c * 1024)]"
  "sample_shape (para_layout (sample_para a (c # d # cs) ff)) = [sample_line 1 512000 12288, sample_line 2 (int (length (d # cs)) * 10240) 12288]"
  by (simp_all add: sample_shape_def sample_para_def)

lemma sample_links:
  "links_of sample_shape (sample_para a [] ff) = [sample_link 0 0 12288 ff]"
  "links_of sample_shape (sample_para a (c # d # cs) ff)
     = [sample_link 1 512000 12288 False, sample_link 2 (int (length (d # cs)) * 10240) 12288 ff]"
   apply (simp_all add: links_of_def sample_shape_simps link_of_def sample_link_def sample_line_def)
   apply (simp_all add: sample_para_def upt_rec numeral_2_eq_2)
  done

theorem formfeed_paragraph_breaks_witness:
  "para_formfeed (sample_para 0 [66, 66] True)
   \<and> sample_shape (para_layout (sample_para 0 [66, 66] True)) \<noteq> []
   \<and> map formfeed (fst (split_paragraphs_into_lines sample_shape sample_layout
         [sample_para 0 [66, 66] True, sample_para 3 [] False])) = [False, True, False]
   \<and> column_y_pos (loop_states sample_env False (column_height sample_layout * PANGO_SCALE)
          (init_state sample_env False [] sample_layout)
          (fst (split_paragraphs_into_lines sample_shape sample_layout
             [sample_para 0 [66, 66] True, sample_para 3 [] False])) ! 2) = 12288
   \<and> column_idx (loop_states sample_env False (column_height sample_layout * PANGO_SCALE)
          (init_state sample_env False [] sample_layout)
          (fst (split_paragraphs_into_lines sample_shape sample_layout
             [sample_para 0 [66, 66] True, sample_para 3 [] False])) ! 2) = 0
   \<and> page_idx (loop_states sample_env False (column_height sample_layout * PANGO_SCALE)
          (init_state sample_env False [] sample_layout)
          (fst (split_paragraphs_into_lines sample_shape sample_layout
             [sample_para 0 [66, 66] True, sample_para 3 [] False])) ! 2) = 2"
proof -
  let ?P = "sample_para 0 [66, 66] True"
  let ?Q = "sample_para 3 [] False"
  define L where "L = [sample_link 1 512000 12288 False, sample_link 2 10240 12288 True,
                       sample_link 0 0 12288 False]"
  define S where "S = loop_states sample_env False (column_height sample_layout * PANGO_SCALE)
                        (init_state sample_env False [] sample_layout) L"
  have ff: "para_formfeed ?P" by (simp add: sample_para_def)
  have ne: "sample_shape (para_layout ?P) \<noteq> []" by (simp add: sample_shape_simps)
  have lines: "fst (split_paragraphs_into_lines sample_shape sample_layout [?P, ?Q]) = L"
    by (simp add: split_lines sample_links L_def)
  have pl: "snd (split_paragraphs_into_lines sample_shape sample_layout [?P, ?Q]) = sample_layout"
    by (simp add: split_paragraphs_into_lines_def sample_layout_def Let_def split: prod.splits)
  have first: "length (fst (split_paragraphs_into_lines sample_shape sample_layout [])) = 0"
    by (simp add: split_lines)
  have n: "length (sample_shape (para_layout ?P)) = 2" by (simp add: sample_shape_simps)
  have idx: "0 + 2 - 1 = (1::nat)" "Suc 1 = 2" by simp_all
  note th = formfeed_paragraph_breaks[where P = ?P and shape = sample_shape and pl = sample_layout
        and ps = "[]" and qs = "[?Q]" and e = sample_env and nh = False and cr = "[]", OF ff ne,
        unfolded Let_def append_Nil lines pl first n S_def[symmetric] idx]
  have L3: "2 < length L" and L2: "L ! 2 = sample_link 0 0 12288 False"
    and Lf: "map formfeed L = [False, True, False]"
    by (simp_all add: L_def sample_link_def)
  have one: "page_idx (S ! 1) = 1 \<and> column_idx (S ! 1) = 0"
    unfolding S_def L_def
    by (simp add: Let_def loop_body_def need_break_def init_state_def begin_page_def
        sample_link_def sample_rect_def line_height_def sample_layout_def PANGO_SCALE_def)
  have hgt: "line_height sample_layout (sample_link 0 0 12288 False) = 12288"
    by (simp add: line_height_def sample_layout_def sample_link_def sample_rect_def)
  have nc: "num_columns sample_layout = 1"
    by (simp add: sample_layout_def)
  have "column_y_pos (S ! 2) = 12288 \<and> column_idx (S ! 2) = 0 \<and> page_idx (S ! 2) = 2"
    using th L3 one by (simp add: L2 hgt nc)
  then show ?thesis
    using ff ne Lf unfolding lines S_def[symmetric] by simp
qed

subsection \<open>The assignments are a function of the stream and of the configuration\<close>

lemma line_height_lpi_only: "lpi pl1 = lpi pl2 \<Longrightarrow> line_height pl1 l = line_height pl2 l"
  by (simp add: line_height_def)

lemma loop_body_same_cursor:
  assumes "same_cursor s t"
  shows "same_cursor (loop_body e1 nh1 h s l) (loop_body e2 nh2 h t l)"
proof -
  have eq: "column_idx s = column_idx t" "column_y_pos s = column_y_pos t"
    "page_idx s = page_idx t" "prev_line_link s = prev_line_link t"
    "num_columns (st_layout s) = num_columns (st_layout t)"
    "lpi (st_layout s) = lpi (st_layout t)"
    using assms unfolding same_cursor_def by blast+
  have nb: "need_break h s l = need_break h t l"
    unfolding need_break_def eq ..
  have lh: "line_height (st_layout s) l = line_height (st_layout t) l"
    using eq(6) by (rule line_height_lpi_only)
  obtain h1 where h1: "st_layout (loop_body e1 nh1 h s l) = (st_layout s)\<lparr>header_height := h1\<rparr>"
    using loop_body_layout by blast
  obtain h2 where h2: "st_layout (loop_body e2 nh2 h t l) = (st_layout t)\<lparr>header_height := h2\<rparr>"
    using loop_body_layout by blast
  have lay: "num_columns (st_layout (loop_body e1 nh1 h s l))
               = num_columns (st_layout (loop_body e2 nh2 h t l))"
    "lpi (st_layout (loop_body e1 nh1 h s l)) = lpi (st_layout (loop_body e2 nh2 h t l))"
    unfolding h1 h2 using eq(5,6) by simp_all
  have prev: "prev_line_link (loop_body e1 nh1 h s l) = prev_line_link (loop_body e2 nh2 h t l)"
    unfolding loop_body_prev ..
  have cur: "column_idx (loop_body e1 nh1 h s l) = column_idx (loop_body e2 nh2 h t l)
      \<and> column_y_pos (loop_body e1 nh1 h s l) = column_y_pos (loop_body e2 nh2 h t l)
      \<and> page_idx (loop_body e1 nh1 h s l) = page_idx (loop_body e2 nh2 h t l)"
  proof (cases "need_break h s l")
    case True
    then have T: "need_break h t l" using nb by simp
    show ?thesis
      unfolding loop_body_break[OF True] loop_body_break[OF T] eq lh by simp
  next
    case False
    then have F: "\<not> need_break h t l" using nb by simp
    show ?thesis
      unfolding loop_body_no_break[OF False] loop_body_no_break[OF F] eq lh by simp
  qed
  show ?thesis
    unfolding same_cursor_def using cur prev lay by blast
qed

lemma loop_states_same_cursor:
  "same_cursor s t \<Longrightarrow>
     map placement (loop_states e1 nh1 h s ls) = map placement (loop_states e2 nh2 h t ls)"
proof (induction ls arbitrary: s t)
  case Nil then show ?case by simp
next
  case (Cons l ls)
  have sc: "same_cursor (loop_body e1 nh1 h s l) (loop_body e2 nh2 h t l)"
    using Cons.prems by (rule loop_body_same_cursor)
  then have "placement (loop_body e1 nh1 h s l) = placement (loop_body e2 nh2 h t l)"
    by (simp add: same_cursor_def placement_def)
  with Cons.IH[OF sc] show ?case by (simp add: Let_def)
qed

lemma foldl_same_cursor:
  "same_cursor s t \<Longrightarrow>
     same_cursor (foldl (loop_body e1 nh1 h) s ls) (foldl (loop_body e2 nh2 h) t ls)"
proof (induction ls arbitrary: s t)
  case Nil then show ?case by simp
next
  case (Cons l ls)
  have "same_cursor (loop_body e1 nh1 h s l) (loop_body e2 nh2 h t l)"
    using Cons.prems by (rule loop_body_same_cursor)
  from Cons.IH[OF this] show ?case by simp
qed

lemma init_same_cursor:
  assumes "num_columns pl1 = num_columns pl2" "lpi pl1 = lpi pl2"
  shows "same_cursor (init_state e1 nh1 cr1 pl1) (init_state e2 nh2 cr2 pl2)"
proof -
  obtain h1 where "st_layout (init_state e1 nh1 cr1 pl1) = pl1\<lparr>header_height := h1\<rparr>"
    using init_state_layout by blast
  moreover obtain h2 where "st_layout (init_state e2 nh2 cr2 pl2) = pl2\<lparr>header_height := h2\<rparr>"
    using init_state_layout by blast
  ultimately show ?thesis
    using assms by (simp add: same_cursor_def) (simp add: init_state_def begin_page_fields)
qed

lemma assignments_depend_on:
  assumes "column_height pl1 = column_height pl2" "num_columns pl1 = num_columns pl2"
    "lpi pl1 = lpi pl2"
  shows "assignments e1 cr1 ls pl1 nh1 = assignments e2 cr2 ls pl2 nh2"
    and "fst (output_pages e1 cr1 ls pl1 nh1) = fst (output_pages e2 cr2 ls pl2 nh2)"
proof -
  have sc: "same_cursor (init_state e1 nh1 cr1 pl1) (init_state e2 nh2 cr2 pl2)"
    using assms(2,3) by (rule init_same_cursor)
  show "assignments e1 cr1 ls pl1 nh1 = assignments e2 cr2 ls pl2 nh2"
    unfolding assignments_def assms(1) using sc by (rule loop_states_same_cursor)
  have "same_cursor (foldl (loop_body e1 nh1 (column_height pl2 * PANGO_SCALE)) (init_state e1 nh1 cr1 pl1) ls)
       (foldl (loop_body e2 nh2 (column_height pl2 * PANGO_SCALE)) (init_state e2 nh2 cr2 pl2) ls)"
    using sc by (rule foldl_same_cursor)
  then show "fst (output_pages e1 cr1 ls pl1 nh1) = fst (output_pages e2 cr2 ls pl2 nh2)"
    by (simp add: output_pages_def Let_def assms(1) same_cursor_def)
qed

lemma foldl_layout:
  "\<exists>hh. st_layout (foldl (loop_body e nh h) s ls) = (st_layout s)\<lparr>header_height := hh\<rparr>"
proof (induction ls arbitrary: s)
  case Nil
  have "st_layout s = (st_layout s)\<lparr>header_height := header_height (st_layout s)\<rparr>" by simp
  then show ?case by (simp only: foldl_Nil) blast
next
  case (Cons l ls)
  obtain h1 where h1: "st_layout (loop_body e nh h s l) = (st_layout s)\<lparr>header_height := h1\<rparr>"
    using loop_body_layout by blast
  obtain h2 where "st_layout (foldl (loop_body e nh h) (loop_body e nh h s l) ls)
       = (st_layout (loop_body e nh h s l))\<lparr>header_height := h2\<rparr>"
    using Cons.IH by blast
  with h1 show ?case by auto
qed

lemma output_pages_layout:
  "\<exists>hh. snd (snd (output_pages e cr ls pl nh)) = pl\<lparr>header_height := hh\<rparr>"
proof -
  obtain h0 where h0: "st_layout (init_state e nh cr pl) = pl\<lparr>header_height := h0\<rparr>"
    using init_state_layout by blast
  obtain h1 where "st_layout (foldl (loop_body e nh (column_height pl * PANGO_SCALE)) (init_state e nh cr pl) ls)
      = (st_layout (init_state e nh cr pl))\<lparr>header_height := h1\<rparr>"
    using foldl_layout by blast
  with h0 show ?thesis by (auto simp: output_pages_def Let_def)
qed

text \<open>
  Claim C9. The assignments of \<^verbatim>\<open>output_pages\<close> (page index, column index and vertical
  position of every line) are the same when the function is run a second time on the same
  line stream, starting from the cairo context and the layout record that the first run
  left behind, and whatever Pango then measures for the header; so is the page count
  returned. They depend on the stream and on the column height, the column count and lpi
  only (lemma \<open>assignments_depend_on\<close>).
\<close>

theorem output_pages_deterministic:
  "assignments e' (fst (snd (output_pages e cr ls pl nh))) ls
       (snd (snd (output_pages e cr ls pl nh))) nh
     = assignments e cr ls pl nh
   \<and> fst (output_pages e' (fst (snd (output_pages e cr ls pl nh))) ls
       (snd (snd (output_pages e cr ls pl nh))) nh)
     = fst (output_pages e cr ls pl nh)"
proof -
  obtain hh where hh: "snd (snd (output_pages e cr ls pl nh)) = pl\<lparr>header_height := hh\<rparr>"
    using output_pages_layout by blast
  have g: "column_height (pl\<lparr>header_height := hh\<rparr>) = column_height pl"
    "num_columns (pl\<lparr>header_height := hh\<rparr>) = num_columns pl"
    "lpi (pl\<lparr>header_height := hh\<rparr>) = lpi pl"
    by simp_all
  show ?thesis
    unfolding hh using assignments_depend_on[OF g] by blast
qed

subsection \<open>Horizontal placement\<close>

text \<open>
  Claim C7. Left to right, a line in column \<open>i\<close> is drawn at
  \<open>x = left_margin + i * (column_width + gutter_width)\<close>. Right to left the columns are
  mirrored and the line is right-aligned in its column:
  \<open>x = left_margin + (num_columns - 1 - i) * (column_width + gutter_width)
       + (column_width - width / PANGO_SCALE)\<close>;
  this is the \<open>x\<close> that \<^verbatim>\<open>draw_line_to_page\<close> moves to. With three columns, logical
  column 0 takes the slot \<open>2 * (column_width + gutter_width)\<close>, and no column is further to
  the right when \<open>column_width + gutter_width \<ge> 0\<close>. Right to left, \<^verbatim>\<open>eject_column\<close>
  draws the separator of column \<open>i\<close> with the mirrored index \<open>num_columns - i\<close>.
\<close>

theorem column_placement:
  "(pango_dir pl = PANGO_DIRECTION_LTR \<longrightarrow>
      draw_line_x_pos pl i line = left_margin pl + i * (column_width pl + gutter_width pl))
   \<and> (pango_dir pl = PANGO_DIRECTION_RTL \<longrightarrow>
      draw_line_x_pos pl i line
        = left_margin pl + (num_columns pl - 1 - i) * (column_width pl + gutter_width pl)
          + (column_width pl - rect_width (line_logical line) sdiv PANGO_SCALE))
   \<and> draw_line_to_page cr i pos pl line
        = cr @ [(In_draw_line_to_page,
                 Move_to (real_of_int (draw_line_x_pos pl i line))
                         (real_of_int (top_margin pl + header_sep pl + pos sdiv PANGO_SCALE))),
                (In_draw_line_to_page, Show_layout_line line)]
   \<and> (pango_dir pl = PANGO_DIRECTION_RTL \<and> num_columns pl = 3 \<longrightarrow>
      draw_line_x_pos pl 0 line
        = left_margin pl + 2 * (column_width pl + gutter_width pl)
          + (column_width pl - rect_width (line_logical line) sdiv PANGO_SCALE))
   \<and> (pango_dir pl = PANGO_DIRECTION_RTL \<and> 0 \<le> column_width pl + gutter_width pl \<and> 0 \<le> i \<longrightarrow>
      draw_line_x_pos pl i line \<le> draw_line_x_pos pl 0 line)
   \<and> (pango_dir pl = PANGO_DIRECTION_RTL \<and> do_separation_line pl \<longrightarrow>
      eject_column cr pl i = eject_column cr (pl\<lparr>pango_dir := PANGO_DIRECTION_LTR\<rparr>) (num_columns pl - i)
      \<and> (\<exists>y_top y_bot. eject_column cr pl i
            = cr @ [(In_eject_column,
                     Move_to (real_of_int (left_margin pl + column_width pl * (num_columns pl - i))
                              + (real_of_int (num_columns pl - i) - 1 / 2) * real_of_int (gutter_width pl))
                             y_top),
                    (In_eject_column,
                     Line_to (real_of_int (left_margin pl + column_width pl * (num_columns pl - i))
                              + (real_of_int (num_columns pl - i) - 1 / 2) * real_of_int (gutter_width pl))
                             y_bot),
                    (In_eject_column, Set_line_width 0.1),
                    (In_eject_column, Stroke)]))"
proof -
  have ltr: "pango_dir pl = PANGO_DIRECTION_LTR \<longrightarrow>
      draw_line_x_pos pl i line = left_margin pl + i * (column_width pl + gutter_width pl)"
    by (simp add: draw_line_x_pos_def Let_def pango_layout_line_get_extents_def)
  have rtl: "pango_dir pl = PANGO_DIRECTION_RTL \<longrightarrow>
      draw_line_x_pos pl i line
        = left_margin pl + (num_columns pl - 1 - i) * (column_width pl + gutter_width pl)
          + (column_width pl - rect_width (line_logical line) sdiv PANGO_SCALE)" for i
    by (simp add: draw_line_x_pos_def Let_def pango_layout_line_get_extents_def)
  have draw: "draw_line_to_page cr i pos pl line
        = cr @ [(In_draw_line_to_page,
                 Move_to (real_of_int (draw_line_x_pos pl i line))
                         (real_of_int (top_margin pl + header_sep pl + pos sdiv PANGO_SCALE))),
                (In_draw_line_to_page, Show_layout_line line)]"
    by (simp add: draw_line_to_page_def Let_def)
  have three: "pango_dir pl = PANGO_DIRECTION_RTL \<and> num_columns pl = 3 \<longrightarrow>
      draw_line_x_pos pl 0 line
        = left_margin pl + 2 * (column_width pl + gutter_width pl)
          + (column_width pl - rect_width (line_logical line) sdiv PANGO_SCALE)"
    using rtl[of 0] by simp
  have right: "pango_dir pl = PANGO_DIRECTION_RTL \<and> 0 \<le> column_width pl + gutter_width pl \<and> 0 \<le> i \<longrightarrow>
      draw_line_x_pos pl i line \<le> draw_line_x_pos pl 0 line"
  proof (intro impI, elim conjE)
    assume r: "pango_dir pl = PANGO_DIRECTION_RTL" and w: "0 \<le> column_width pl + gutter_width pl"
      and i: "0 \<le> i"
    have "(num_columns pl - 1 - i) * (column_width pl + gutter_width pl)
          \<le> (num_columns pl - 1 - 0) * (column_width pl + gutter_width pl)"
      using w i by (intro mult_right_mono) simp_all
    then show "draw_line_x_pos pl i line \<le> draw_line_x_pos pl 0 line"
      using rtl[of i] rtl[of 0] r by simp
  qed
  have sep: "pango_dir pl = PANGO_DIRECTION_RTL \<and> do_separation_line pl \<longrightarrow>
      eject_column cr pl i = eject_column cr (pl\<lparr>pango_dir := PANGO_DIRECTION_LTR\<rparr>) (num_columns pl - i)
      \<and> (\<exists>y_top y_bot. eject_column cr pl i
            = cr @ [(In_eject_column,
                     Move_to (real_of_int (left_margin pl + column_width pl * (num_columns pl - i))
                              + (real_of_int (num_columns pl - i) - 1 / 2) * real_of_int (gutter_width pl))
                             y_top),
                    (In_eject_column,
                     Line_to (real_of_int (left_margin pl + column_width pl * (num_columns pl - i))
                              + (real_of_int (num_columns pl - i) - 1 / 2) * real_of_int (gutter_width pl))
                             y_bot),
                    (In_eject_column, Set_line_width 0.1),
                    (In_eject_column, Stroke)])"
    by (auto simp: eject_column_def Let_def)
  show ?thesis using ltr rtl[of i] draw three right sep by blast
qed

theorem column_placement_witness:
  "pango_dir sample_rtl3 = PANGO_DIRECTION_RTL \<and> num_columns sample_rtl3 = 3
   \<and> do_separation_line sample_rtl3
   \<and> 0 \<le> column_width sample_rtl3 + gutter_width sample_rtl3
   \<and> draw_line_x_pos sample_rtl3 0 (sample_line 1 102400 12288) = 457
   \<and> draw_line_x_pos sample_rtl3 2 (sample_line 1 102400 12288) = 83
   \<and> draw_line_x_pos sample_rtl3 2 (sample_line 1 102400 12288)
       \<le> draw_line_x_pos sample_rtl3 0 (sample_line 1 102400 12288)
   \<and> pango_dir sample_layout = PANGO_DIRECTION_LTR
   \<and> draw_line_x_pos (sample_layout\<lparr>num_columns := 3, column_width := 147\<rparr>) 2
        (sample_line 1 102400 12288) = 410
   \<and> eject_column [] sample_rtl3 1
       = eject_column [] (sample_rtl3\<lparr>pango_dir := PANGO_DIRECTION_LTR\<rparr>) 2"
proof -
  have f: "pango_dir sample_rtl3 = PANGO_DIRECTION_RTL" "num_columns sample_rtl3 = 3"
    "do_separation_line sample_rtl3" "0 \<le> column_width sample_rtl3 + gutter_width sample_rtl3"
    "left_margin sample_rtl3 = 36" "column_width sample_rtl3 = 147" "gutter_width sample_rtl3 = 40"
    by (simp_all add: sample_rtl3_def sample_layout_def)
  have g: "pango_dir (sample_layout\<lparr>num_columns := 3, column_width := 147\<rparr>) = PANGO_DIRECTION_LTR"
    "left_margin (sample_layout\<lparr>num_columns := 3, column_width := 147\<rparr>) = 36"
    "column_width (sample_layout\<lparr>num_columns := 3, column_width := 147\<rparr>) = 147"
    "gutter_width (sample_layout\<lparr>num_columns := 3, column_width := 147\<rparr>) = 40"
    "pango_dir sample_layout = PANGO_DIRECTION_LTR"
    by (simp_all add: sample_layout_def)
  have w: "rect_width (line_logical (sample_line 1 102400 12288)) sdiv PANGO_SCALE = 100"
    by (simp add: sample_line_def sample_rect_def PANGO_SCALE_def signed_divide_int_def)
  have a: "draw_line_x_pos sample_rtl3 0 (sample_line 1 102400 12288) = 457"
    using column_placement[of sample_rtl3 0 "sample_line 1 102400 12288" "[]" 0] f w by simp
  have b: "draw_line_x_pos sample_rtl3 2 (sample_line 1 102400 12288) = 83
         \<and> draw_line_x_pos sample_rtl3 2 (sample_line 1 102400 12288)
             \<le> draw_line_x_pos sample_rtl3 0 (sample_line 1 102400 12288)
         \<and> eject_column [] sample_rtl3 1
             = eject_column [] (sample_rtl3\<lparr>pango_dir := PANGO_DIRECTION_LTR\<rparr>) 2"
    using column_placement[of sample_rtl3 2 "sample_line 1 102400 12288" "[]" 0]
      column_placement[of sample_rtl3 1 "sample_line 1 102400 12288" "[]" 0] f w by simp
  have c: "draw_line_x_pos (sample_layout\<lparr>num_columns := 3, column_width := 147\<rparr>) 2
        (sample_line 1 102400 12288) = 410"
    using column_placement[of "sample_layout\<lparr>num_columns := 3, column_width := 147\<rparr>" 2
        "sample_line 1 102400 12288" "[]" 0] g by simp
  show ?thesis using f g a b c by simp
qed

subsection \<open>One column\<close>

lemma begin_page_calls:
  "c \<in> set (st_cr (begin_page e nh s)) \<Longrightarrow>
     c \<in> set (st_cr s) \<or> fst c = In_start_page \<or> fst c = In_header"
  by (auto simp: begin_page_def start_page_def draw_page_header_line_to_page_def Let_def
      split: prod.splits if_splits)

lemma next_column_single_calls:
  assumes "column_idx s = 0" "num_columns (st_layout s) = 1"
    and "c \<in> set (st_cr (next_column e nh s))"
  shows "c \<in> set (st_cr s) \<or> fst c = In_start_page \<or> fst c = In_header \<or> fst c = In_eject_page"
proof -
  let ?t = "s\<lparr>column_y_pos := 0, column_idx := 0, st_cr := eject_page (st_cr s),
               page_idx := page_idx s + 1\<rparr>"
  have "next_column e nh s = begin_page e nh ?t"
    using assms(1,2) by (simp add: next_column_def Let_def)
  with assms(3) have "c \<in> set (st_cr (begin_page e nh ?t))" by simp
  from begin_page_calls[OF this] show ?thesis
    by (auto simp: eject_page_def)
qed

lemma draw_line_x_pos_header:
  "draw_line_x_pos (pl\<lparr>header_height := hh\<rparr>) i line = draw_line_x_pos pl i line"
  by (simp add: draw_line_x_pos_def)

lemma draw_line_x_pos_single:
  "num_columns pl = 1 \<Longrightarrow> draw_line_x_pos pl 0 line
     = (if pango_dir pl = PANGO_DIRECTION_RTL
        then left_margin pl + (column_width pl - rect_width (line_logical line) sdiv PANGO_SCALE)
        else left_margin pl)"
  by (simp add: draw_line_x_pos_def Let_def pango_layout_line_get_extents_def)

lemma loop_body_single_calls:
  assumes c0: "column_idx s = 0" and n1: "num_columns (st_layout s) = 1"
    and c: "c \<in> set (st_cr (loop_body e nh h s l))"
  shows "c \<in> set (st_cr s) \<or> fst c = In_start_page \<or> fst c = In_header \<or> fst c = In_eject_page
       \<or> (\<exists>y. c = (In_draw_line_to_page,
                  Move_to (real_of_int (draw_line_x_pos (st_layout s) 0 (pango_line l))) y))
       \<or> c = (In_draw_line_to_page, Show_layout_line (pango_line l))"
proof (cases "need_break h s l")
  case True
  let ?s1 = "next_column e nh s"
  obtain hh where hh: "st_layout ?s1 = (st_layout s)\<lparr>header_height := hh\<rparr>"
    using next_column_layout by blast
  have ci: "column_idx ?s1 = 0" using c0 n1 by (simp add: next_column_fields)
  have "st_cr (loop_body e nh h s l)
        = draw_line_to_page (st_cr ?s1) 0 (column_y_pos ?s1 + line_height (st_layout ?s1) l)
            (st_layout ?s1) (pango_line l)"
    using True ci by (simp add: loop_body_def Let_def)
  with c have "c \<in> set (st_cr ?s1)
      \<or> (\<exists>y. c = (In_draw_line_to_page,
                  Move_to (real_of_int (draw_line_x_pos (st_layout s) 0 (pango_line l))) y))
      \<or> c = (In_draw_line_to_page, Show_layout_line (pango_line l))"
    by (auto simp: draw_line_to_page_def Let_def hh draw_line_x_pos_header)
  then show ?thesis
    using next_column_single_calls[OF c0 n1, of c e nh] by blast
next
  case False
  have "st_cr (loop_body e nh h s l)
        = draw_line_to_page (st_cr s) 0 (column_y_pos s + line_height (st_layout s) l)
            (st_layout s) (pango_line l)"
    using False c0 by (simp add: loop_body_def Let_def)
  with c show ?thesis
    by (auto simp: draw_line_to_page_def Let_def)
qed

lemma loop_body_single_column_idx:
  assumes "column_idx s = 0" "num_columns (st_layout s) = 1"
  shows "column_idx (loop_body e nh h s l) = 0"
proof (cases "need_break h s l")
  case True
  from loop_body_break(2)[OF True, of e nh] assms show ?thesis by simp
next
  case False
  from loop_body_no_break(2)[OF False, of e nh] assms show ?thesis by simp
qed

lemma loop_body_single_inv:
  assumes n1: "num_columns pl = 1" and inv: "single_column_inv pl lines s" and l: "l \<in> set lines"
  shows "single_column_inv pl lines (loop_body e nh h s l)"
proof -
  from inv obtain hh where c0: "column_idx s = 0" and hh: "st_layout s = pl\<lparr>header_height := hh\<rparr>"
    and calls: "\<forall>c\<in>set (st_cr s). single_column_call pl lines c"
    unfolding single_column_inv_def by blast
  have n1s: "num_columns (st_layout s) = 1" using n1 by (simp add: hh)
  have a: "column_idx (loop_body e nh h s l) = 0"
    using c0 n1s by (rule loop_body_single_column_idx)
  obtain h2 where "st_layout (loop_body e nh h s l) = (st_layout s)\<lparr>header_height := h2\<rparr>"
    using loop_body_layout by blast
  then have "st_layout (loop_body e nh h s l) = pl\<lparr>header_height := h2\<rparr>"
    by (simp add: hh)
  then have b: "\<exists>k. st_layout (loop_body e nh h s l) = pl\<lparr>header_height := k\<rparr>"
    by blast
  have x: "draw_line_x_pos (st_layout s) 0 (pango_line l)
     = (if pango_dir pl = PANGO_DIRECTION_RTL
        then left_margin pl + (column_width pl - rect_width (line_logical (pango_line l)) sdiv PANGO_SCALE)
        else left_margin pl)"
    using draw_line_x_pos_single[OF n1, of "pango_line l"] by (simp add: hh draw_line_x_pos_header)
  have c: "single_column_call pl lines c" if "c \<in> set (st_cr (loop_body e nh h s l))" for c
  proof -
    from loop_body_single_calls[OF c0 n1s that]
    consider "c \<in> set (st_cr s)"
      | "fst c = In_start_page \<or> fst c = In_header \<or> fst c = In_eject_page"
      | y where "c = (In_draw_line_to_page,
                  Move_to (real_of_int (draw_line_x_pos (st_layout s) 0 (pango_line l))) y)"
      | "c = (In_draw_line_to_page, Show_layout_line (pango_line l))"
      by blast
    then show ?thesis
    proof cases
      case 1 then show ?thesis using calls by blast
    next
      case 2 then show ?thesis by (auto simp: single_column_call_def)
    next
      case 3
      then show ?thesis using l unfolding single_column_call_def x by auto
    next
      case 4 then show ?thesis by (simp add: single_column_call_def)
    qed
  qed
  show ?thesis unfolding single_column_inv_def using a b c by blast
qed

lemma foldl_single_inv:
  assumes "num_columns pl = 1"
  shows "single_column_inv pl lines s \<Longrightarrow> set ls \<subseteq> set lines \<Longrightarrow>
     single_column_inv pl lines (foldl (loop_body e nh h) s ls)"
proof (induction ls arbitrary: s)
  case Nil then show ?case by simp
next
  case (Cons l ls)
  have "single_column_inv pl lines (loop_body e nh h s l)"
    using assms Cons.prems by (intro loop_body_single_inv) simp_all
  from Cons.IH[OF this] Cons.prems(2) show ?case by simp
qed

lemma loop_states_single_inv:
  assumes "num_columns pl = 1"
  shows "single_column_inv pl lines s \<Longrightarrow> set ls \<subseteq> set lines \<Longrightarrow>
     \<forall>t\<in>set (loop_states e nh h s ls). single_column_inv pl lines t"
proof (induction ls arbitrary: s)
  case Nil then show ?case by simp
next
  case (Cons l ls)
  have "single_column_inv pl lines (loop_body e nh h s l)"
    using assms Cons.prems by (intro loop_body_single_inv) simp_all
  with Cons.IH[OF this] Cons.prems(2) show ?case by (simp add: Let_def)
qed

lemma init_single_inv:
  assumes "\<forall>c\<in>set cr. fst c \<noteq> In_eject_column \<and> fst c \<noteq> In_draw_line_to_page"
  shows "single_column_inv pl lines (init_state e nh cr pl)"
proof -
  have a: "column_idx (init_state e nh cr pl) = 0"
    by (simp add: init_state_def begin_page_fields)
  have b: "\<exists>hh. st_layout (init_state e nh cr pl) = pl\<lparr>header_height := hh\<rparr>"
    by (rule init_state_layout)
  have c: "single_column_call pl lines c" if "c \<in> set (st_cr (init_state e nh cr pl))" for c
  proof -
    from that have "c \<in> set cr \<or> fst c = In_start_page \<or> fst c = In_header"
      unfolding init_state_def using begin_page_calls by fastforce
    then show ?thesis using assms by (auto simp: single_column_call_def)
  qed
  show ?thesis unfolding single_column_inv_def using a b c by blast
qed

text \<open>
  Claim C6, as the code has it. With one column, for every line stream and either
  direction: the gutter total of \<^verbatim>\<open>main\<close> is 0, the column index stays 0, no call on
  the context comes from \<^verbatim>\<open>eject_column\<close> (so no separator is drawn), and every line is
  moved to \<open>x = left_margin\<close>, except that right to left it is moved to
  \<open>left_margin + column_width - width / PANGO_SCALE\<close> (right-aligned in the column). The
  context given to \<^verbatim>\<open>output_pages\<close> is one on which no line and no separator has been
  drawn yet.
\<close>

theorem single_column_placement:
  assumes "num_columns pl = 1"
      and "\<forall>c\<in>set cr. fst c \<noteq> In_eject_column \<and> fst c \<noteq> In_draw_line_to_page"
  shows "total_gutter_width (num_columns pl) (gutter_width pl) = 0
     \<and> (\<forall>s\<in>set (loop_states e nh (column_height pl * PANGO_SCALE) (init_state e nh cr pl) lines).
           column_idx s = 0)
     \<and> (\<forall>c\<in>set (fst (snd (output_pages e cr lines pl nh))). fst c \<noteq> In_eject_column)
     \<and> (\<forall>x y. (In_draw_line_to_page, Move_to x y) \<in> set (fst (snd (output_pages e cr lines pl nh)))
           \<longrightarrow> (if pango_dir pl = PANGO_DIRECTION_RTL
                then \<exists>l\<in>set lines. x = real_of_int (left_margin pl
                        + (column_width pl - rect_width (line_logical (pango_line l)) sdiv PANGO_SCALE))
                else x = real_of_int (left_margin pl)))"
proof -
  let ?h = "column_height pl * PANGO_SCALE"
  have i0: "single_column_inv pl lines (init_state e nh cr pl)"
    using assms(2) by (rule init_single_inv)
  have a: "total_gutter_width (num_columns pl) (gutter_width pl) = 0"
    using assms(1) by (simp add: total_gutter_width_def)
  have b: "\<forall>s\<in>set (loop_states e nh ?h (init_state e nh cr pl) lines). column_idx s = 0"
    using loop_states_single_inv[OF assms(1) i0, of lines e nh ?h]
    by (simp add: single_column_inv_def)
  have "single_column_inv pl lines (foldl (loop_body e nh ?h) (init_state e nh cr pl) lines)"
    using foldl_single_inv[OF assms(1) i0, of lines e nh ?h] by simp
  then have "\<forall>c\<in>set (st_cr (foldl (loop_body e nh ?h) (init_state e nh cr pl) lines)).
               single_column_call pl lines c"
    by (simp add: single_column_inv_def)
  then have c: "\<forall>c\<in>set (fst (snd (output_pages e cr lines pl nh))). single_column_call pl lines c"
    by (auto simp: output_pages_def Let_def eject_page_def single_column_call_def)
  show ?thesis
    using a b c unfolding single_column_call_def by blast
qed

subsection \<open>Runs on the sample page\<close>

lemma sample_layout_fields:
  "column_width sample_layout = 523" "column_height sample_layout = 769"
  "num_columns sample_layout = 1" "gutter_width sample_layout = 40"
  "top_margin sample_layout = 36" "bottom_margin sample_layout = 36"
  "left_margin sample_layout = 36" "right_margin sample_layout = 36"
  "header_sep sample_layout = 0" "header_height sample_layout = 0"
  "footer_height sample_layout = 0"
  "scale_x sample_layout = Finite 1" "scale_y sample_layout = Finite 1"
  "do_landscape sample_layout = False" "do_separation_line sample_layout = True"
  "do_wordwrap sample_layout = True" "do_stretch_chars sample_layout = False"
  "pango_dir sample_layout = PANGO_DIRECTION_LTR"
  "lpi sample_layout = 0" "cpi sample_layout = 0" "cups_mode sample_layout = False"
  by (simp_all add: sample_layout_def)

lemma sample_link_fields:
  "pango_line (sample_link n w h ff) = sample_line n w h"
  "logical_rect (sample_link n w h ff) = sample_rect w h"
  "ink_rect (sample_link n w h ff) = sample_rect w h"
  "formfeed (sample_link n w h ff) = ff"
  "line_logical (sample_line n w h) = sample_rect w h"
  "line_ink (sample_line n w h) = sample_rect w h"
  "rect_width (sample_rect w h) = w" "rect_height (sample_rect w h) = h"
  "output_format sample_env = FORMAT_POSTSCRIPT"
  by (simp_all add: sample_link_def sample_line_def sample_rect_def sample_env_def)

lemmas run_defs = output_pages_def init_state_def begin_page_def start_page_def loop_body_def
  need_break_def next_column_def eject_page_def draw_line_to_page_def draw_line_x_pos_def
  line_height_def pango_layout_line_get_extents_def Let_def PANGO_SCALE_def
  signed_divide_int_def c_trunc_def sample_layout_fields sample_link_fields

lemma sample_init:
  "init_state sample_env False cr sample_layout
   = \<lparr>column_idx = 0, column_y_pos = 0, page_idx = 1, prev_line_link = None,
      st_cr = cr @ [(In_start_page, Identity_matrix), (In_start_page, Dsc_begin_page_setup),
                    (In_start_page, Dsc_comment ''%%PageOrientation: Portrait'')],
      st_layout = sample_layout\<rparr>"
  by (simp add: run_defs)

lemma sample_step_first:
  "loop_body sample_env False (column_height sample_layout * PANGO_SCALE)
     \<lparr>column_idx = 0, column_y_pos = 0, page_idx = 1, prev_line_link = None,
      st_cr = cr, st_layout = sample_layout\<rparr> (sample_link 1 102400 12288 True)
   = \<lparr>column_idx = 0, column_y_pos = 12288, page_idx = 1,
      prev_line_link = Some (sample_link 1 102400 12288 True),
      st_cr = cr @ [(In_draw_line_to_page, Move_to 36 48),
                    (In_draw_line_to_page, Show_layout_line (sample_line 1 102400 12288))],
      st_layout = sample_layout\<rparr>"
  by (simp add: run_defs)

lemma sample_step_second:
  "loop_body sample_env False (column_height sample_layout * PANGO_SCALE)
     \<lparr>column_idx = 0, column_y_pos = 12288, page_idx = 1,
      prev_line_link = Some (sample_link 1 102400 12288 True),
      st_cr = cr, st_layout = sample_layout\<rparr> (sample_link 2 51200 12288 False)
   = \<lparr>column_idx = 0, column_y_pos = 12288, page_idx = 2,
      prev_line_link = Some (sample_link 2 51200 12288 False),
      st_cr = cr @ [(In_eject_page, Show_page),
                    (In_start_page, Identity_matrix), (In_start_page, Dsc_begin_page_setup),
                    (In_start_page, Dsc_comment ''%%PageOrientation: Portrait''),
                    (In_draw_line_to_page, Move_to 36 48),
                    (In_draw_line_to_page, Show_layout_line (sample_line 2 51200 12288))],
      st_layout = sample_layout\<rparr>"
  by (simp add: run_defs)

lemma sample_two_lines_log:
  "fst (snd (output_pages sample_env []
       [sample_link 1 102400 12288 True, sample_link 2 51200 12288 False] sample_layout False))
   = [(In_start_page, Identity_matrix), (In_start_page, Dsc_begin_page_setup),
      (In_start_page, Dsc_comment ''%%PageOrientation: Portrait''),
      (In_draw_line_to_page, Move_to 36 48),
      (In_draw_line_to_page, Show_layout_line (sample_line 1 102400 12288)),
      (In_eject_page, Show_page),
      (In_start_page, Identity_matrix), (In_start_page, Dsc_begin_page_setup),
      (In_start_page, Dsc_comment ''%%PageOrientation: Portrait''),
      (In_draw_line_to_page, Move_to 36 48),
      (In_draw_line_to_page, Show_layout_line (sample_line 2 51200 12288)),
      (In_eject_page, Show_page)]"
  unfolding output_pages_def Let_def foldl.simps sample_init sample_step_first sample_step_second
  by (simp add: eject_page_def)

theorem single_column_placement_witness:
  "num_columns sample_layout = 1
   \<and> total_gutter_width (num_columns sample_layout) (gutter_width sample_layout) = 0
   \<and> In_eject_column \<notin> fst ` set (fst (snd (output_pages sample_env []
          [sample_link 1 102400 12288 True, sample_link 2 51200 12288 False] sample_layout False)))
   \<and> {x. \<exists>y. (In_draw_line_to_page, Move_to x y) \<in> set (fst (snd (output_pages sample_env []
          [sample_link 1 102400 12288 True, sample_link 2 51200 12288 False] sample_layout False)))}
       = {36}"
proof -
  let ?log = "fst (snd (output_pages sample_env []
          [sample_link 1 102400 12288 True, sample_link 2 51200 12288 False] sample_layout False))"
  have n: "num_columns sample_layout = 1" by (simp add: sample_layout_fields)
  have c: "\<forall>c\<in>set ([]::cairo_t). fst c \<noteq> In_eject_column \<and> fst c \<noteq> In_draw_line_to_page"
    by simp
  have d: "pango_dir sample_layout \<noteq> PANGO_DIRECTION_RTL" "left_margin sample_layout = 36"
    by (simp_all add: sample_layout_fields)
  have m: "(In_draw_line_to_page, Move_to 36 48) \<in> set ?log"
    unfolding sample_two_lines_log by simp
  note th = single_column_placement[OF n c, of sample_env False
        "[sample_link 1 102400 12288 True, sample_link 2 51200 12288 False]"]
  have g: "total_gutter_width (num_columns sample_layout) (gutter_width sample_layout) = 0"
    using th by blast
  have "\<forall>c\<in>set ?log. fst c \<noteq> In_eject_column"
    using th by (elim conjE)
  then have e: "In_eject_column \<notin> fst ` set ?log"
    by auto
  have x: "\<forall>x y. (In_draw_line_to_page, Move_to x y) \<in> set ?log \<longrightarrow> x = 36"
    using th unfolding if_not_P[OF d(1)] d(2) by simp
  have "{x. \<exists>y. (In_draw_line_to_page, Move_to x y) \<in> set ?log} = {36}"
    using x m by blast
  with n g e show ?thesis by blast
qed

text \<open>One column, right to left, one line 100 points wide in the column of 523 points:
  the line is moved to \<open>x = 36 + 523 - 100 = 459\<close>, not to the left margin 36.\<close>

theorem single_column_rtl_counterexample:
  "num_columns (sample_layout\<lparr>pango_dir := PANGO_DIRECTION_RTL\<rparr>) = 1
   \<and> left_margin (sample_layout\<lparr>pango_dir := PANGO_DIRECTION_RTL\<rparr>) = 36
   \<and> fst (snd (output_pages sample_env [] [sample_link 1 102400 12288 False]
              (sample_layout\<lparr>pango_dir := PANGO_DIRECTION_RTL\<rparr>) False))
     = [(In_start_page, Identity_matrix), (In_start_page, Dsc_begin_page_setup),
        (In_start_page, Dsc_comment ''%%PageOrientation: Portrait''),
        (In_draw_line_to_page, Move_to 459 48),
        (In_draw_line_to_page, Show_layout_line (sample_line 1 102400 12288)),
        (In_eject_page, Show_page)]
   \<and> \<not> (\<forall>x y. (In_draw_line_to_page, Move_to x y)
              \<in> set (fst (snd (output_pages sample_env [] [sample_link 1 102400 12288 False]
                       (sample_layout\<lparr>pango_dir := PANGO_DIRECTION_RTL\<rparr>) False)))
            \<longrightarrow> x = real_of_int (left_margin (sample_layout\<lparr>pango_dir := PANGO_DIRECTION_RTL\<rparr>)))"
proof -
  have log: "fst (snd (output_pages sample_env [] [sample_link 1 102400 12288 False]
              (sample_layout\<lparr>pango_dir := PANGO_DIRECTION_RTL\<rparr>) False))
     = [(In_start_page, Identity_matrix), (In_start_page, Dsc_begin_page_setup),
        (In_start_page, Dsc_comment ''%%PageOrientation: Portrait''),
        (In_draw_line_to_page, Move_to 459 48),
        (In_draw_line_to_page, Show_layout_line (sample_line 1 102400 12288)),
        (In_eject_page, Show_page)]"
    by (simp add: run_defs)
  have lm: "left_margin (sample_layout\<lparr>pango_dir := PANGO_DIRECTION_RTL\<rparr>) = 36"
    "num_columns (sample_layout\<lparr>pango_dir := PANGO_DIRECTION_RTL\<rparr>) = 1"
    by (simp_all add: sample_layout_fields)
  have "\<not> (\<forall>x y. (In_draw_line_to_page, Move_to x y)
              \<in> set (fst (snd (output_pages sample_env [] [sample_link 1 102400 12288 False]
                       (sample_layout\<lparr>pango_dir := PANGO_DIRECTION_RTL\<rparr>) False)))
            \<longrightarrow> x = real_of_int (left_margin (sample_layout\<lparr>pango_dir := PANGO_DIRECTION_RTL\<rparr>)))"
    unfolding log lm by auto
  then show ?thesis using log lm by blast
qed

text \<open>
  Claim C8, at lpi = 6 with stretching on and two paragraphs of one line each, 10 and 14
  points high. \<^verbatim>\<open>split_paragraphs_into_lines\<close> sets \<open>scale_y\<close> to the double nearest to \<open>12288 / 14336 = 12 / 14\<close>,
  \<^verbatim>\<open>main\<close> calls \<^verbatim>\<open>cairo_scale\<close> with it, and both lines advance by 12288 units
  (12 points). But \<^verbatim>\<open>output_pages\<close> begins with \<^verbatim>\<open>start_page\<close>, whose first call is
  \<^verbatim>\<open>cairo_identity_matrix\<close>: both lines are shown with no transformation in force.
\<close>

theorem stretch_scale_reset_before_drawing:
  "scale_y (snd (snd (main_render sample_env sample_shape []
        (sample_layout\<lparr>lpi := 6, do_stretch_chars := True\<rparr>)
        [sample_para 0 [10] False, sample_para 2 [14] False] False))) = Finite (to_double (12 / 14))
   \<and> fst (snd (main_render sample_env sample_shape []
        (sample_layout\<lparr>lpi := 6, do_stretch_chars := True\<rparr>)
        [sample_para 0 [10] False, sample_para 2 [14] False] False))
     = [(In_main, Scale (Finite 1) (Finite (to_double (12 / 14)))),
        (In_start_page, Identity_matrix), (In_start_page, Dsc_begin_page_setup),
        (In_start_page, Dsc_comment ''%%PageOrientation: Portrait''),
        (In_draw_line_to_page, Move_to 36 48),
        (In_draw_line_to_page, Show_layout_line (sample_line 1 10240 10240)),
        (In_draw_line_to_page, Move_to 36 60),
        (In_draw_line_to_page, Show_layout_line (sample_line 1 10240 14336)),
        (In_eject_page, Show_page)]
   \<and> shown_with [] (fst (snd (main_render sample_env sample_shape []
        (sample_layout\<lparr>lpi := 6, do_stretch_chars := True\<rparr>)
        [sample_para 0 [10] False, sample_para 2 [14] False] False)))
     = [([], sample_line 1 10240 10240), ([], sample_line 1 10240 14336)]
   \<and> assignments sample_env [(In_main, Scale (Finite 1) (Finite (to_double (12 / 14))))]
        (fst (split_paragraphs_into_lines sample_shape
                (sample_layout\<lparr>lpi := 6, do_stretch_chars := True\<rparr>)
                [sample_para 0 [10] False, sample_para 2 [14] False]))
        (snd (split_paragraphs_into_lines sample_shape
                (sample_layout\<lparr>lpi := 6, do_stretch_chars := True\<rparr>)
                [sample_para 0 [10] False, sample_para 2 [14] False])) False
     = [(1, 0, 12288), (1, 0, 24576)]"
proof -
  let ?pl = "sample_layout\<lparr>lpi := 6, do_stretch_chars := True\<rparr>"
  let ?ps = "[sample_para 0 [10] False, sample_para 2 [14] False]"
  let ?L = "[sample_link 1 10240 10240 False, sample_link 1 10240 14336 False]"
  have lk: "links_of sample_shape (sample_para 0 [10] False) = [sample_link 1 10240 10240 False]"
    "links_of sample_shape (sample_para 2 [14] False) = [sample_link 1 10240 14336 False]"
    by (simp_all add: links_of_def sample_shape_simps link_of_def sample_link_def sample_line_def)
      (simp_all add: sample_para_def)
  have lines: "fst (split_paragraphs_into_lines sample_shape ?pl ?ps) = ?L"
    by (simp add: split_lines lk)
  have fp: "for_paragraph sample_shape (ls, m) (sample_para a [c] False)
      = (sample_link 1 10240 (int c * 1024) False # ls,
         if int c * 1024 > m then int c * 1024 else m)" for ls m a c
    apply (simp add: for_paragraph_def sample_shape_simps Let_def for_line_def
        pango_layout_line_get_extents_def sample_link_fields)
    apply (simp add: sample_link_def sample_para_def)
    done
  have mh: "foldl (for_paragraph sample_shape) ([], 0) ?ps
      = ([sample_link 1 10240 14336 False, sample_link 1 10240 10240 False], 14336)"
    unfolding foldl.simps fp by simp
  have lay: "snd (split_paragraphs_into_lines sample_shape ?pl ?ps)
      = ?pl\<lparr>scale_y := Finite (to_double (12 / 14))\<rparr>"
  proof -
    have q: "d_div 12288 14336 = to_double (12 / 14)" by (simp add: d_div_def)
    show ?thesis
      unfolding split_paragraphs_into_lines_def mh
      by (simp add: Let_def sample_layout_fields PANGO_SCALE_def lpi_expr_6 q)
  qed
  have split: "split_paragraphs_into_lines sample_shape ?pl ?ps
      = (?L, ?pl\<lparr>scale_y := Finite (to_double (12 / 14))\<rparr>)"
    using lines lay by (simp add: prod_eq_iff)
  let ?pl' = "?pl\<lparr>scale_y := Finite (to_double (12 / 14))\<rparr>"
  have i0: "init_state sample_env False cr ?pl'
     = \<lparr>column_idx = 0, column_y_pos = 0, page_idx = 1, prev_line_link = None,
        st_cr = cr @ [(In_start_page, Identity_matrix), (In_start_page, Dsc_begin_page_setup),
                      (In_start_page, Dsc_comment ''%%PageOrientation: Portrait'')],
        st_layout = ?pl'\<rparr>" for cr
    by (simp add: init_state_def begin_page_def start_page_def Let_def sample_layout_fields
        sample_link_fields)
  have s1: "loop_body sample_env False (column_height ?pl' * PANGO_SCALE)
       \<lparr>column_idx = 0, column_y_pos = 0, page_idx = 1, prev_line_link = None,
        st_cr = cr, st_layout = ?pl'\<rparr> (sample_link 1 10240 10240 False)
     = \<lparr>column_idx = 0, column_y_pos = 12288, page_idx = 1,
        prev_line_link = Some (sample_link 1 10240 10240 False),
        st_cr = cr @ [(In_draw_line_to_page, Move_to 36 48),
                      (In_draw_line_to_page, Show_layout_line (sample_line 1 10240 10240))],
        st_layout = ?pl'\<rparr>" for cr
    by (simp add: loop_body_def need_break_def line_height_def draw_line_to_page_def
        draw_line_x_pos_def pango_layout_line_get_extents_def Let_def PANGO_SCALE_def
        signed_divide_int_def c_trunc_def sample_layout_fields sample_link_fields lpi_expr_6)
  have s2: "loop_body sample_env False (column_height ?pl' * PANGO_SCALE)
       \<lparr>column_idx = 0, column_y_pos = 12288, page_idx = 1,
        prev_line_link = Some (sample_link 1 10240 10240 False),
        st_cr = cr, st_layout = ?pl'\<rparr> (sample_link 1 10240 14336 False)
     = \<lparr>column_idx = 0, column_y_pos = 24576, page_idx = 1,
        prev_line_link = Some (sample_link 1 10240 14336 False),
        st_cr = cr @ [(In_draw_line_to_page, Move_to 36 60),
                      (In_draw_line_to_page, Show_layout_line (sample_line 1 10240 14336))],
        st_layout = ?pl'\<rparr>" for cr
    by (simp add: loop_body_def need_break_def line_height_def draw_line_to_page_def
        draw_line_x_pos_def pango_layout_line_get_extents_def Let_def PANGO_SCALE_def
        signed_divide_int_def c_trunc_def sample_layout_fields sample_link_fields lpi_expr_6)
  have log: "fst (snd (main_render sample_env sample_shape [] ?pl ?ps False))
     = [(In_main, Scale (Finite 1) (Finite (to_double (12 / 14)))),
        (In_start_page, Identity_matrix), (In_start_page, Dsc_begin_page_setup),
        (In_start_page, Dsc_comment ''%%PageOrientation: Portrait''),
        (In_draw_line_to_page, Move_to 36 48),
        (In_draw_line_to_page, Show_layout_line (sample_line 1 10240 10240)),
        (In_draw_line_to_page, Move_to 36 60),
        (In_draw_line_to_page, Show_layout_line (sample_line 1 10240 14336)),
        (In_eject_page, Show_page)]"
    unfolding main_render_def split prod.case Let_def output_pages_def foldl.simps
      i0 s1 s2
    by (simp add: eject_page_def sample_layout_fields)
  have sy: "scale_y (snd (snd (main_render sample_env sample_shape [] ?pl ?ps False)))
      = Finite (to_double (12 / 14))"
  proof -
    obtain hh where "snd (snd (output_pages sample_env [(In_main, Scale (Finite 1) (Finite (to_double (12 / 14))))]
        ?L (?pl\<lparr>scale_y := Finite (to_double (12 / 14))\<rparr>) False)) = (?pl\<lparr>scale_y := Finite (to_double (12 / 14))\<rparr>)\<lparr>header_height := hh\<rparr>"
      using output_pages_layout by blast
    then show ?thesis
      unfolding main_render_def split by (simp add: sample_layout_fields)
  qed
  have sh: "shown_with [] (fst (snd (main_render sample_env sample_shape [] ?pl ?ps False)))
     = [([], sample_line 1 10240 10240), ([], sample_line 1 10240 14336)]"
    unfolding log by simp
  have asg: "assignments sample_env [(In_main, Scale (Finite 1) (Finite (to_double (12 / 14))))]
        (fst (split_paragraphs_into_lines sample_shape ?pl ?ps))
        (snd (split_paragraphs_into_lines sample_shape ?pl ?ps)) False
     = [(1, 0, 12288), (1, 0, 24576)]"
    unfolding split fst_conv snd_conv assignments_def loop_states.simps Let_def i0 s1 s2
    by (simp add: placement_def)
  show ?thesis using sy log sh asg by blast
qed

subsection \<open>The scan for paragraphs\<close>

lemma scan_continue:
  "scan_step env pl text s = Continue s' \<Longrightarrow> scan (Suc n) env pl text s = scan n env pl text s'"
  by simp

lemma scan_return:
  "scan_step env pl text s = Return r \<Longrightarrow> scan (Suc n) env pl text s = Some r"
  by simp

lemma scan_step_invalid_cups:
  assumes "scan_p s < length text" and "g_utf8_get_char (drop (scan_p s) text) = INVALID_CHAR"
    and "cups_mode pl"
  shows "scan_step env pl text s
       = Continue (s\<lparr>scan_p := scan_p s + g_utf8_skip (byte_at text (scan_p s))\<rparr>)"
  using assms by (simp add: scan_step_def Let_def)

lemma scan_step_invalid_plain:
  assumes "scan_p s < length text" and "g_utf8_get_char (drop (scan_p s) text) = INVALID_CHAR"
    and "\<not> cups_mode pl" and "\<not> (cpi pl > 0 \<and> do_wordwrap pl)"
  shows "scan_step env pl text s
       = Return (Inr (rev (result s)
           @ [new_paragraph pl (last_para s) (scan_p s - last_para s) 0
                (set_text_and_wrap pl (paint_width s)
                   (take (scan_p s - last_para s) (drop (last_para s) text)))]))"
  using assms by (auto simp: scan_step_def Let_def boundary_block_def)

lemma wrap_loop_le: "wrap_loop wcw col wtext w i \<le> i + length wtext"
proof (induction wtext arbitrary: w i)
  case Nil
  then show ?case by simp
next
  case (Cons c wtext)
  show ?case
    using Cons.IH[of "if wcw c \<ge> 0 then w + nat (wcw c) else w" "Suc i"]
    by (simp add: Let_def)
qed

lemma offset_within:
  "i \<le> g_utf8_strlen (take n (drop l text)) \<Longrightarrow> l + n \<le> length text \<Longrightarrow>
     g_utf8_offset_to_pointer text l i \<le> l + n"
  supply [simp] = g_utf8_offset_to_pointer.simps g_utf8_strlen.simps
proof (induction i arbitrary: l n)
  case 0
  then show ?case by simp
next
  case (Suc i)
  have ne: "take n (drop l text) \<noteq> []"
  proof
    assume "take n (drop l text) = []"
    with Suc.prems(1) show False by simp
  qed
  then have n0: "0 < n" and ll: "l < length text" by auto
  define c where "c = text ! l"
  have td: "take n (drop l text) = c # take (n - 1) (drop (Suc l) text)"
    using n0 ll by (cases n) (simp_all add: c_def Cons_nth_drop_Suc[symmetric])
  define k where "k = g_utf8_skip c"
  have kpos: "0 < k" by (simp add: k_def g_utf8_skip_def)
  have fit: "k \<le> n" and sl: "i \<le> g_utf8_strlen (drop (k - 1) (take (n - 1) (drop (Suc l) text)))"
    using Suc.prems(1) n0 unfolding td by (auto simp: k_def split: if_splits)
  have dr: "drop (k - 1) (take (n - 1) (drop (Suc l) text)) = take (n - k) (drop (l + k) text)"
    using kpos fit by (simp add: drop_take add.commute)
  have "g_utf8_offset_to_pointer text (l + k) i \<le> (l + k) + (n - k)"
    using sl Suc.prems(2) fit unfolding dr by (intro Suc.IH) simp_all
  moreover have "byte_at text l = c" using ll by (simp add: byte_at_def c_def)
  ultimately show ?case using fit by (simp add: k_def)
qed

lemma scan_step_invalid_back:
  assumes "scan_p s < length text" and "g_utf8_get_char (drop (scan_p s) text) = INVALID_CHAR"
    and "\<not> cups_mode pl" and "last_para s \<le> scan_p s"
    and "scan_step env pl text s = Continue s'"
  shows "scan_p s' \<le> scan_p s" and "cpi pl > 0 \<and> do_wordwrap pl"
proof -
  show rw: "cpi pl > 0 \<and> do_wordwrap pl"
    using assms(5) scan_step_invalid_plain[OF assms(1-3), of env] by auto
  define str where "str = take (scan_p s - last_para s) (drop (last_para s) text)"
  from assms rw obtain layout len nxt wc pw where
    bb: "boundary_block env pl text (last_para s) (scan_p s)
           (scan_p s + g_utf8_skip (byte_at text (scan_p s))) 0 (paint_width s)
         = Block_ok layout len nxt wc pw" and s': "scan_p s' = nxt" and wc: "wc \<noteq> 0"
    by (auto simp: scan_step_def Let_def split: block_result.splits if_splits)
  from bb rw wc obtain wtext col where
    "g_utf8_to_ucs4 str = Some wtext" and "cpi_columns pl = Some col"
    and cut: "g_utf8_strlen str > col"
    and nxt: "nxt = g_utf8_offset_to_pointer text (last_para s)
                (wrap_loop (wcwidth env) col (take (g_utf8_strlen str) wtext) 0 0)"
    by (auto simp: boundary_block_def Let_def str_def split: option.splits if_splits)
  have "wrap_loop (wcwidth env) col (take (g_utf8_strlen str) wtext) 0 0 \<le> g_utf8_strlen str"
    using wrap_loop_le[of "wcwidth env" col "take (g_utf8_strlen str) wtext" 0 0] by simp
  then have "nxt \<le> last_para s + (scan_p s - last_para s)"
    unfolding nxt str_def using assms(1,4) by (intro offset_within) simp_all
  then show "scan_p s' \<le> scan_p s" using s' assms(4) by simp
qed

lemma scan_step_plain:
  assumes "plain_at text (scan_p s)"
  shows "scan_step env pl text s
       = Continue (s\<lparr>scan_p := scan_p s + g_utf8_skip (byte_at text (scan_p s))\<rparr>)"
  using assms by (simp add: scan_step_def Let_def plain_at_def)

lemma scan_skip:
  assumes "\<forall>j<k. plain_at text (g_utf8_offset_to_pointer text (scan_p s) j)"
  shows "scan (k + fuel) env pl text s
       = scan fuel env pl text (s\<lparr>scan_p := g_utf8_offset_to_pointer text (scan_p s) k\<rparr>)"
  supply [simp] = g_utf8_offset_to_pointer.simps
  using assms
proof (induction k arbitrary: s)
  case 0
  then show ?case by simp
next
  case (Suc k)
  let ?s = "s\<lparr>scan_p := scan_p s + g_utf8_skip (byte_at text (scan_p s))\<rparr>"
  from Suc.prems have "plain_at text (g_utf8_offset_to_pointer text (scan_p s) 0)" by blast
  then have st: "scan_step env pl text s = Continue ?s"
    by (simp add: scan_step_plain)
  have "\<forall>j<k. plain_at text (g_utf8_offset_to_pointer text (scan_p ?s) j)"
  proof (intro allI impI)
    fix j assume "j < k"
    then have "Suc j < Suc k" by simp
    with Suc.prems have "plain_at text (g_utf8_offset_to_pointer text (scan_p s) (Suc j))"
      by blast
    then show "plain_at text (g_utf8_offset_to_pointer text (scan_p ?s) j)" by simp
  qed
  from Suc.IH[OF this] show ?case by (simp add: st)
qed

lemma scan_paragraph_then_invalid:
  assumes "\<not> cups_mode pl" and "\<not> (cpi pl > 0 \<and> do_wordwrap pl)"
    and "\<forall>j<k. plain_at text (g_utf8_offset_to_pointer text 0 j)"
    and "g_utf8_offset_to_pointer text 0 k < length text"
    and "g_utf8_get_char (drop (g_utf8_offset_to_pointer text 0 k) text) = INVALID_CHAR"
  shows "split_text_into_paragraphs (Suc k + fuel) env pl pw text
       = Some (Inr [new_paragraph pl 0 (g_utf8_offset_to_pointer text 0 k) 0
                      (set_text_and_wrap pl pw (take (g_utf8_offset_to_pointer text 0 k) text))])"
proof -
  let ?s = "\<lparr>scan_p = 0, last_para = 0, result = [], paint_width = pw\<rparr>"
  let ?t = "?s\<lparr>scan_p := g_utf8_offset_to_pointer text (scan_p ?s) k\<rparr>"
  have "scan (k + Suc fuel) env pl text ?s = scan (Suc fuel) env pl text ?t"
    using assms(3) by (intro scan_skip) simp
  moreover have "scan_step env pl text ?t
      = Return (Inr (rev (result ?t)
           @ [new_paragraph pl (last_para ?t) (scan_p ?t - last_para ?t) 0
                (set_text_and_wrap pl (paint_width ?t)
                   (take (scan_p ?t - last_para ?t) (drop (last_para ?t) text)))]))"
    using assms(1,2,4,5) by (intro scan_step_invalid_plain) simp_all
  ultimately show ?thesis
    by (simp add: split_text_into_paragraphs_def)
qed

lemma sample_layout_scan [simp]:
  "cups_mode sample_layout = False" "cpi sample_layout = 0" "do_wordwrap sample_layout = True"
  "do_justify sample_layout = False" "pango_dir sample_layout = PANGO_DIRECTION_LTR"
  "column_width sample_layout = 523"
  by (simp_all add: sample_layout_def)

lemma utf8_length_ascii: "c < 128 \<Longrightarrow> utf8_length c = 1"
  by (simp add: utf8_length_def)

lemma get_char_ascii: "c < 128 \<Longrightarrow> g_utf8_get_char (c # bs) = c"
  by (simp add: g_utf8_get_char_def utf8_length_def utf8_first_def)

lemma get_char_no_lead: "utf8_length c = 0 \<Longrightarrow> g_utf8_get_char (c # bs) = INVALID_CHAR"
  by (simp add: g_utf8_get_char_def)

lemma skip_ascii: "c < 128 \<Longrightarrow> g_utf8_skip c = 1"
  by (simp add: g_utf8_skip_def utf8_length_def)

lemma sample_text_plain:
  "plain_at [97, 98, 255, 99, 100, 10] 0" "plain_at [97, 98, 255, 99, 100, 10] 1"
  "plain_at [97, 98, 255, 99, 100, 10] 3" "plain_at [97, 98, 255, 99, 100, 10] 4"
  by (simp_all add: plain_at_def get_char_ascii INVALID_CHAR_def)

lemma sample_text_invalid:
  "g_utf8_get_char (drop 2 [97, 98, 255, 99, 100, 10]) = INVALID_CHAR"
  by (simp add: get_char_no_lead utf8_length_def)

lemma sample_text_offsets:
  "g_utf8_offset_to_pointer [97, 98, 255, 99, 100, 10] 0 0 = 0"
  "g_utf8_offset_to_pointer [97, 98, 255, 99, 100, 10] 0 1 = 1"
  "g_utf8_offset_to_pointer [97, 98, 255, 99, 100, 10] 0 2 = 2"
  by (simp_all add: numeral_2_eq_2 byte_at_def skip_ascii g_utf8_offset_to_pointer.simps)

lemma sample_narrow_columns: "cpi_columns sample_narrow_layout = Some 1"
proof -
  have t1: "to_double (10 / 72) = 5003999585967218 / 2 ^ 55"
    by (subst to_double_eval[where e = "- 3" and k = 5003999585967218])
       (simp_all add: power_int_minus round_even_def Let_def)
  have t2: "to_double (5003999585967218 / 2 ^ 55 * 10) = 6254999482459022 / 2 ^ 52"
    by (subst to_double_eval[where e = 0 and k = 6254999482459022])
       (simp_all add: power_int_minus round_even_def Let_def)
  have s1: "d_div 10 72 = 5003999585967218 / 2 ^ 55" by (simp only: d_div_def t1)
  have s2: "d_mul (d_div 10 72) 10 = 6254999482459022 / 2 ^ 52" by (simp only: s1 d_mul_def t2)
  have f: "column_width sample_narrow_layout = 10" "cpi sample_narrow_layout = 10"
    by (simp_all add: sample_narrow_layout_def)
  have n: "real_of_int 10 = 10" "(72.0::real) = 72" by simp_all
  show ?thesis
    unfolding cpi_columns_def f n s2 by (simp add: c_trunc_def)
qed

lemma sample_narrow_fields [simp]:
  "cups_mode sample_narrow_layout = False" "cpi sample_narrow_layout = 10"
  "do_wordwrap sample_narrow_layout = True" "do_justify sample_narrow_layout = False"
  "pango_dir sample_narrow_layout = PANGO_DIRECTION_LTR"
  by (simp_all add: sample_narrow_layout_def)

lemma sample_wcwidth [simp]:
  "wcwidth sample_scan_env 97 = 1" "wcwidth sample_scan_env 98 = 1"
  "wcwidth sample_scan_env 12354 = 2"
  "layout_logical_width sample_scan_env l = int (length (layout_text l)) * 7373"
  by (simp_all add: sample_scan_env_def)

lemma narrow_step:
  "scan_step sample_scan_env sample_narrow_layout [97, 98, 255]
     \<lparr>scan_p = 2, last_para = 0, result = [], paint_width = 523\<rparr>
   = Continue \<lparr>scan_p = 1, last_para = 1,
       result = [new_paragraph sample_narrow_layout 0 1 97
                   (pango_layout_new\<lparr>layout_text := [97], layout_width := - 1\<rparr>)],
       paint_width = 7\<rparr>"
proof -
  have u: "g_utf8_to_ucs4 [97, 98] = Some [97, 98]"
    by (simp add: g_utf8_to_ucs4.simps utf8_length_ascii get_char_ascii utf8_min_code_def
        INVALID_CHAR_def)
  have l: "g_utf8_strlen [97, 98] = 2" by (simp add: g_utf8_strlen.simps skip_ascii)
  have w: "wrap_loop (wcwidth sample_scan_env) 1 [97, 98] 0 0 = 1" by simp
  have e: "g_ucs4_to_utf8 [97] = Some [97]" by (simp add: g_ucs4_to_utf8_def g_unichar_to_utf8_def)
  have o: "g_utf8_offset_to_pointer [97, 98, 255] 0 (Suc 0) = Suc 0"
    by (simp add: g_utf8_offset_to_pointer.simps byte_at_def skip_ascii)
  have pc: "g_utf8_prev_char [97, 98, 255] (Suc 0) = Some 0"
    by (simp add: g_utf8_prev_char.simps byte_at_def)
  have bb: "boundary_block sample_scan_env sample_narrow_layout [97, 98, 255] 0 2 n 0 523
     = Block_ok (pango_layout_new\<lparr>layout_text := [97], layout_width := - 1\<rparr>) 1 1 97 7" for n
    by (simp add: boundary_block_def u l w e o pc sample_narrow_columns Let_def get_char_ascii
        PANGO_SCALE_def signed_divide_int_def pango_layout_new_def)
  have i: "g_utf8_get_char [255] = INVALID_CHAR"
    by (simp add: get_char_no_lead utf8_length_def)
  show ?thesis
    by (simp add: scan_step_def Let_def i bb)
qed

lemma cups_run:
  "scan 4 sample_scan_env (sample_layout\<lparr>cups_mode := True\<rparr>) [97, 98, 255, 99, 100, 10]
     \<lparr>scan_p = 3, last_para = 0, result = [], paint_width = 523\<rparr>
   = Some (Inr [new_paragraph (sample_layout\<lparr>cups_mode := True\<rparr>) 0 5 10
                  (set_text_and_wrap (sample_layout\<lparr>cups_mode := True\<rparr>) 523 [97, 98, 255, 99, 100])])"
proof -
  let ?T = "[97, 98, 255, 99, 100, 10] :: gchar list"
  let ?pl = "sample_layout\<lparr>cups_mode := True\<rparr>"
  let ?s = "\<lparr>scan_p = 3, last_para = 0, result = [], paint_width = 523\<rparr>"
  have pl: "\<forall>j<2. plain_at ?T (g_utf8_offset_to_pointer ?T (scan_p ?s) j)"
  proof (intro allI impI)
    fix j :: nat assume "j < 2"
    then have "j = 0 \<or> j = 1" by auto
    then show "plain_at ?T (g_utf8_offset_to_pointer ?T (scan_p ?s) j)"
      using sample_text_plain(3,4)
      by (auto simp: g_utf8_offset_to_pointer.simps byte_at_def skip_ascii)
  qed
  have o: "g_utf8_offset_to_pointer ?T 3 2 = 5"
    by (simp add: numeral_2_eq_2 g_utf8_offset_to_pointer.simps byte_at_def skip_ascii)
  have a: "scan (2 + Suc (Suc 0)) sample_scan_env ?pl ?T ?s
      = scan (Suc (Suc 0)) sample_scan_env ?pl ?T
          (?s\<lparr>scan_p := g_utf8_offset_to_pointer ?T (scan_p ?s) 2\<rparr>)"
    using pl by (rule scan_skip)
  have e: "?s\<lparr>scan_p := g_utf8_offset_to_pointer ?T (scan_p ?s) 2\<rparr>
      = \<lparr>scan_p = 5, last_para = 0, result = [], paint_width = 523\<rparr>"
    by (simp add: o)
  have b: "scan_step sample_scan_env ?pl ?T \<lparr>scan_p = 5, last_para = 0, result = [], paint_width = 523\<rparr>
      = Continue \<lparr>scan_p = 6, last_para = 6,
          result = [new_paragraph ?pl 0 5 10 (set_text_and_wrap ?pl 523 [97, 98, 255, 99, 100])],
          paint_width = 523\<rparr>"
    by (simp add: scan_step_def Let_def get_char_ascii INVALID_CHAR_def boundary_block_def
        byte_at_def skip_ascii)
  have c: "scan_step sample_scan_env ?pl ?T \<lparr>scan_p = 6, last_para = 6,
          result = [new_paragraph ?pl 0 5 10 (set_text_and_wrap ?pl 523 [97, 98, 255, 99, 100])],
          paint_width = 523\<rparr>
      = Return (Inr [new_paragraph ?pl 0 5 10 (set_text_and_wrap ?pl 523 [97, 98, 255, 99, 100])])"
    by (simp add: scan_step_def)
  have "scan (2 + Suc (Suc 0)) sample_scan_env ?pl ?T ?s
     = Some (Inr [new_paragraph ?pl 0 5 10 (set_text_and_wrap ?pl 523 [97, 98, 255, 99, 100])])"
    by (simp only: a e scan_continue[OF b] scan_return[OF c])
  moreover have "(4::nat) = 2 + Suc (Suc 0)" by simp
  ultimately show ?thesis by (simp only:)
qed


text \<open>
  Claim C4, as the code has it. In plain mode the scan does not go on past an invalid code
  point unless \<open>cups_mode\<close> is on. Let the loop be at an offset where \<^verbatim>\<open>g_utf8_get_char\<close>
  gives \<^verbatim>\<open>(gunichar)-1\<close>. With \<open>cups_mode\<close> off and no rewrap for cpi in force (cpi not
  positive, or word wrap off) the offset is a paragraph boundary and the end of the scan:
  the paragraph gathered so far is put on the list, without formfeed, and the list is
  returned in that pass; so a text that begins with plain characters and then has an invalid
  code point gives that one paragraph, whatever follows. With \<open>cups_mode\<close> off in general
  the pass never moves forward: if the loop goes on at all, the rewrap for cpi is in force
  and the scan goes back to where it cut the paragraph. With \<open>cups_mode\<close> on the pass only
  moves the offset, by the length the first byte announces: the rest of the scan is the
  scan from there, with the same paragraphs on the list and the same start of the current
  paragraph.
\<close>

theorem invalid_codepoint_ends_scan:
  assumes "scan_p s < length text"
    and "g_utf8_get_char (drop (scan_p s) text) = INVALID_CHAR"
  shows "(\<not> cups_mode pl \<and> \<not> (cpi pl > 0 \<and> do_wordwrap pl) \<longrightarrow>
            scan (Suc fuel) env pl text s
              = Some (Inr (rev (result s)
                  @ [new_paragraph pl (last_para s) (scan_p s - last_para s) 0
                       (set_text_and_wrap pl (paint_width s)
                          (take (scan_p s - last_para s) (drop (last_para s) text)))])))
       \<and> (\<not> cups_mode pl \<and> \<not> (cpi pl > 0 \<and> do_wordwrap pl)
            \<and> scan_p s = g_utf8_offset_to_pointer text 0 k
            \<and> (\<forall>j<k. plain_at text (g_utf8_offset_to_pointer text 0 j)) \<longrightarrow>
            split_text_into_paragraphs (Suc k + fuel) env pl pw text
              = Some (Inr [new_paragraph pl 0 (scan_p s) 0
                             (set_text_and_wrap pl pw (take (scan_p s) text))]))
       \<and> (\<not> cups_mode pl \<and> last_para s \<le> scan_p s \<longrightarrow>
            (\<forall>s'. scan_step env pl text s = Continue s' \<longrightarrow>
                    cpi pl > 0 \<and> do_wordwrap pl \<and> scan_p s' \<le> scan_p s))
       \<and> (cups_mode pl \<longrightarrow>
            scan (Suc fuel) env pl text s
              = scan fuel env pl text
                  (s\<lparr>scan_p := scan_p s + g_utf8_skip (byte_at text (scan_p s))\<rparr>))"
proof (intro conjI impI)
  assume "\<not> cups_mode pl \<and> \<not> (cpi pl > 0 \<and> do_wordwrap pl)"
  then show "scan (Suc fuel) env pl text s
      = Some (Inr (rev (result s)
          @ [new_paragraph pl (last_para s) (scan_p s - last_para s) 0
               (set_text_and_wrap pl (paint_width s)
                  (take (scan_p s - last_para s) (drop (last_para s) text)))]))"
    using scan_step_invalid_plain[OF assms, of pl env] by simp
next
  assume a: "\<not> cups_mode pl \<and> \<not> (cpi pl > 0 \<and> do_wordwrap pl)
            \<and> scan_p s = g_utf8_offset_to_pointer text 0 k
            \<and> (\<forall>j<k. plain_at text (g_utf8_offset_to_pointer text 0 j))"
  then have k: "scan_p s = g_utf8_offset_to_pointer text 0 k" by blast
  have "split_text_into_paragraphs (Suc k + fuel) env pl pw text
      = Some (Inr [new_paragraph pl 0 (g_utf8_offset_to_pointer text 0 k) 0
                     (set_text_and_wrap pl pw (take (g_utf8_offset_to_pointer text 0 k) text))])"
    using a assms unfolding k by (intro scan_paragraph_then_invalid) simp_all
  then show "split_text_into_paragraphs (Suc k + fuel) env pl pw text
      = Some (Inr [new_paragraph pl 0 (scan_p s) 0
                     (set_text_and_wrap pl pw (take (scan_p s) text))])"
    unfolding k .
next
  assume a: "\<not> cups_mode pl \<and> last_para s \<le> scan_p s"
  show "\<forall>s'. scan_step env pl text s = Continue s' \<longrightarrow>
          cpi pl > 0 \<and> do_wordwrap pl \<and> scan_p s' \<le> scan_p s"
    using scan_step_invalid_back[OF assms, of pl env] a by blast
next
  assume "cups_mode pl"
  then show "scan (Suc fuel) env pl text s
      = scan fuel env pl text
          (s\<lparr>scan_p := scan_p s + g_utf8_skip (byte_at text (scan_p s))\<rparr>)"
    using scan_step_invalid_cups[OF assms, of pl env] by simp
qed

text \<open>The text \<open>ab\<close>, the byte FF, \<open>cd\<close>, newline. With \<open>cups_mode\<close> off the scan returns
  the paragraph \<open>ab\<close> at the byte FF. At a budget of one character (a column of 10 points at
  cpi = 10) the paragraph \<open>ab\<close> before the byte FF is cut after \<open>a\<close>, and the scan goes back
  to offset 1. With \<open>cups_mode\<close> on the scan steps over the byte FF and returns one paragraph
  of five bytes at the newline.\<close>

theorem invalid_codepoint_ends_scan_witness:
  "scan_p \<lparr>scan_p = 2, last_para = 0, result = [], paint_width = 523\<rparr>
     < length [97, 98, 255, 99, 100, 10 :: gchar]
   \<and> g_utf8_get_char (drop 2 [97, 98, 255, 99, 100, 10]) = INVALID_CHAR
   \<and> \<not> cups_mode sample_layout \<and> \<not> (cpi sample_layout > 0 \<and> do_wordwrap sample_layout)
   \<and> scan (Suc 0) sample_scan_env sample_layout [97, 98, 255, 99, 100, 10]
        \<lparr>scan_p = 2, last_para = 0, result = [], paint_width = 523\<rparr>
      = Some (Inr [new_paragraph sample_layout 0 2 0 (set_text_and_wrap sample_layout 523 [97, 98])])
   \<and> g_utf8_offset_to_pointer [97, 98, 255, 99, 100, 10] 0 2 = 2
   \<and> plain_at [97, 98, 255, 99, 100, 10] 0 \<and> plain_at [97, 98, 255, 99, 100, 10] 1
   \<and> split_text_into_paragraphs 3 sample_scan_env sample_layout 523 [97, 98, 255, 99, 100, 10]
      = Some (Inr [new_paragraph sample_layout 0 2 0 (set_text_and_wrap sample_layout 523 [97, 98])])
   \<and> g_utf8_get_char (drop 2 [97, 98, 255]) = INVALID_CHAR
   \<and> \<not> cups_mode sample_narrow_layout
   \<and> scan_step sample_scan_env sample_narrow_layout [97, 98, 255]
        \<lparr>scan_p = 2, last_para = 0, result = [], paint_width = 523\<rparr>
      = Continue \<lparr>scan_p = 1, last_para = 1,
          result = [new_paragraph sample_narrow_layout 0 1 97
                      (pango_layout_new\<lparr>layout_text := [97], layout_width := - 1\<rparr>)],
          paint_width = 7\<rparr>
   \<and> cpi sample_narrow_layout > 0 \<and> do_wordwrap sample_narrow_layout
   \<and> scan_p \<lparr>scan_p = 1, last_para = 1,
          result = [new_paragraph sample_narrow_layout 0 1 97
                      (pango_layout_new\<lparr>layout_text := [97], layout_width := - 1\<rparr>)],
          paint_width = 7\<rparr>
       \<le> scan_p \<lparr>scan_p = 2, last_para = 0, result = [], paint_width = 523\<rparr>
   \<and> cups_mode (sample_layout\<lparr>cups_mode := True\<rparr>)
   \<and> scan 5 sample_scan_env (sample_layout\<lparr>cups_mode := True\<rparr>) [97, 98, 255, 99, 100, 10]
        \<lparr>scan_p = 2, last_para = 0, result = [], paint_width = 523\<rparr>
      = Some (Inr [new_paragraph (sample_layout\<lparr>cups_mode := True\<rparr>) 0 5 10
                     (set_text_and_wrap (sample_layout\<lparr>cups_mode := True\<rparr>) 523
                        [97, 98, 255, 99, 100])])"
proof -
  let ?T = "[97, 98, 255, 99, 100, 10] :: gchar list"
  let ?U = "[97, 98, 255] :: gchar list"
  let ?s = "\<lparr>scan_p = 2, last_para = 0, result = [], paint_width = 523\<rparr>"
  let ?t = "\<lparr>scan_p = 1, last_para = 1,
          result = [new_paragraph sample_narrow_layout 0 1 97
                      (pango_layout_new\<lparr>layout_text := [97], layout_width := - 1\<rparr>)],
          paint_width = 7\<rparr>"
  let ?cups = "sample_layout\<lparr>cups_mode := True\<rparr>"
  have h1: "scan_p ?s < length ?T" by simp
  have h2: "g_utf8_get_char (drop (scan_p ?s) ?T) = INVALID_CHAR"
    using sample_text_invalid by simp
  have c: "\<not> cups_mode sample_layout" "\<not> (cpi sample_layout > 0 \<and> do_wordwrap sample_layout)"
    by simp_all
  have pl: "\<forall>j<2. plain_at ?T (g_utf8_offset_to_pointer ?T 0 j)"
  proof (intro allI impI)
    fix j :: nat assume "j < 2"
    then have "j = 0 \<or> j = 1" by auto
    then show "plain_at ?T (g_utf8_offset_to_pointer ?T 0 j)"
      using sample_text_plain(1,2) sample_text_offsets(1,2) by auto
  qed
  have o: "scan_p ?s = g_utf8_offset_to_pointer ?T 0 2" by (simp add: sample_text_offsets)
  note th = invalid_codepoint_ends_scan[OF h1 h2, of sample_layout 0 sample_scan_env 2 523]
  have a: "scan (Suc 0) sample_scan_env sample_layout ?T ?s
      = Some (Inr [new_paragraph sample_layout 0 2 0 (set_text_and_wrap sample_layout 523 [97, 98])])"
    using th c by simp
  have b: "split_text_into_paragraphs 3 sample_scan_env sample_layout 523 ?T
      = Some (Inr [new_paragraph sample_layout 0 2 0 (set_text_and_wrap sample_layout 523 [97, 98])])"
  proof -
    from th c o pl have "split_text_into_paragraphs (Suc 2 + 0) sample_scan_env sample_layout 523 ?T
      = Some (Inr [new_paragraph sample_layout 0 (scan_p ?s) 0
                     (set_text_and_wrap sample_layout 523 (take (scan_p ?s) ?T))])"
      by blast
    then show ?thesis by simp
  qed
  have g1: "scan_p ?s < length ?U" by simp
  have g2: "g_utf8_get_char (drop (scan_p ?s) ?U) = INVALID_CHAR"
    by (simp add: get_char_no_lead utf8_length_def)
  have d: "cpi sample_narrow_layout > 0 \<and> do_wordwrap sample_narrow_layout \<and> scan_p ?t \<le> scan_p ?s"
    using invalid_codepoint_ends_scan[OF g1 g2, of sample_narrow_layout 0 sample_scan_env 0 0]
      narrow_step by simp
  have e: "scan 5 sample_scan_env ?cups ?T ?s
      = Some (Inr [new_paragraph ?cups 0 5 10 (set_text_and_wrap ?cups 523 [97, 98, 255, 99, 100])])"
  proof -
    have "scan (Suc 4) sample_scan_env ?cups ?T ?s
        = scan 4 sample_scan_env ?cups ?T
            (?s\<lparr>scan_p := scan_p ?s + g_utf8_skip (byte_at ?T (scan_p ?s))\<rparr>)"
      using invalid_codepoint_ends_scan[OF h1 h2, of ?cups 4 sample_scan_env 0 0] by simp
    moreover have "?s\<lparr>scan_p := scan_p ?s + g_utf8_skip (byte_at ?T (scan_p ?s))\<rparr>
        = \<lparr>scan_p = 3, last_para = 0, result = [], paint_width = 523\<rparr>"
      by (simp add: byte_at_def g_utf8_skip_def utf8_length_def)
    moreover have "Suc 4 = 5" by simp
    ultimately show ?thesis using cups_run by (simp only:)
  qed
  show ?thesis
    using h1 sample_text_invalid c a sample_text_offsets(3) sample_text_plain(1,2) b g2
      narrow_step d e
    by simp
qed

text \<open>The same text from its start: the scan returns (the fuel is not used up) the one
  paragraph \<open>ab\<close>; \<open>cd\<close> is in no paragraph.\<close>

theorem invalid_codepoint_counterexample:
  "map_option (map_sum id (map para_view))
     (split_text_into_paragraphs 10 sample_scan_env sample_layout 523
        [97, 98, 255, 99, 100, 10])
   = Some (Inr [(0, 2, False, [97, 98])])"
proof -
  let ?T = "[97, 98, 255, 99, 100, 10] :: gchar list"
  have pl: "\<forall>j<2. plain_at ?T (g_utf8_offset_to_pointer ?T 0 j)"
  proof (intro allI impI)
    fix j :: nat assume "j < 2"
    then have "j = 0 \<or> j = 1" by auto
    then show "plain_at ?T (g_utf8_offset_to_pointer ?T 0 j)"
      using sample_text_plain(1,2) sample_text_offsets(1,2) by auto
  qed
  have "split_text_into_paragraphs (Suc 2 + 7) sample_scan_env sample_layout 523 ?T
        = Some (Inr [new_paragraph sample_layout 0 (g_utf8_offset_to_pointer ?T 0 2) 0
                      (set_text_and_wrap sample_layout 523 (take (g_utf8_offset_to_pointer ?T 0 2) ?T))])"
    using pl sample_text_invalid
    by (intro scan_paragraph_then_invalid) (simp_all add: sample_text_offsets)
  then show ?thesis
    by (simp add: sample_text_offsets para_view_def new_paragraph_def set_text_and_wrap_def)
qed

text \<open>An overlong sequence: \<^verbatim>\<open>g_utf8_get_char\<close> decodes the bytes C1 81 to \<open>A\<close>, and
  \<^verbatim>\<open>g_utf8_to_ucs4\<close> refuses them. A string that \<^verbatim>\<open>g_utf8_to_ucs4\<close> accepts has as many
  characters for \<^verbatim>\<open>g_utf8_strlen\<close> as code points.\<close>

lemma overlong_decoded_and_refused:
  "g_utf8_get_char [193, 129] = 65 \<and> g_utf8_to_ucs4 [193, 129] = None"
  by (simp add: g_utf8_get_char_def g_utf8_to_ucs4.simps utf8_length_def utf8_first_def
      utf8_min_code_def INVALID_CHAR_def Let_def)

lemma ucs4_strlen: "g_utf8_to_ucs4 str = Some ws \<Longrightarrow> g_utf8_strlen str = length ws"
proof (induction str arbitrary: ws rule: g_utf8_to_ucs4.induct)
  case 1
  then show ?case by (simp add: g_utf8_to_ucs4.simps g_utf8_strlen.simps)
next
  case (2 c bs)
  let ?n = "utf8_length c"
  from "2.prems" have n: "?n \<noteq> 0" "\<not> length (c # bs) < ?n"
    and ok: "g_utf8_get_char (c # bs) \<noteq> INVALID_CHAR"
      "\<not> g_utf8_get_char (c # bs) < utf8_min_code ?n"
    by (auto simp: g_utf8_to_ucs4.simps Let_def split: if_splits)
  from "2.prems" n ok obtain vs where vs: "g_utf8_to_ucs4 (drop (?n - 1) bs) = Some vs"
    and ws: "ws = g_utf8_get_char (c # bs) # vs"
    by (auto simp: g_utf8_to_ucs4.simps Let_def split: option.splits)
  have "g_utf8_strlen (drop (?n - 1) bs) = length vs"
    using "2.IH"[OF refl refl _ vs] n ok by simp
  moreover have "g_utf8_skip c = ?n" using n by (simp add: g_utf8_skip_def)
  ultimately show ?case using n ws by (simp add: g_utf8_strlen.simps)
qed


subsection \<open>Rewrap for cpi\<close>

text \<open>The loop that finds the cut counts cells: it stops at the longest prefix whose
  cells are within the budget.\<close>

lemma cell_count_simps:
  "cell_count wcw [] = 0"
  "cell_count wcw (c # cs) = nat (wcw c) + cell_count wcw cs"
  by (simp_all add: cell_count_def)

lemma cell_count_take_mono: "j \<le> k \<Longrightarrow> cell_count wcw (take j xs) \<le> cell_count wcw (take k xs)"
proof (induction xs arbitrary: j k)
  case Nil then show ?case by simp
next
  case (Cons x xs)
  show ?case
  proof (cases j)
    case 0 then show ?thesis by (simp add: cell_count_simps)
  next
    case (Suc j')
    with Cons.prems obtain k' where k: "k = Suc k'" "j' \<le> k'" by (cases k) auto
    with Cons.IH[of j' k'] Suc show ?thesis by (simp add: cell_count_simps)
  qed
qed

lemma wrap_loop_spec:
  assumes "w \<le> col"
  shows "wrap_loop wcw col xs w i \<le> i + length xs
       \<and> i \<le> wrap_loop wcw col xs w i
       \<and> w + cell_count wcw (take (wrap_loop wcw col xs w i - i) xs) \<le> col
       \<and> (wrap_loop wcw col xs w i < i + length xs \<longrightarrow>
            col < w + cell_count wcw (take (Suc (wrap_loop wcw col xs w i - i)) xs))"
  using assms
proof (induction xs arbitrary: w i)
  case Nil
  then show ?case by (simp add: cell_count_simps)
next
  case (Cons c cs)
  let ?w = "w + nat (wcw c)"
  have step: "wrap_loop wcw col (c # cs) w i
              = (if ?w > col then i else wrap_loop wcw col cs ?w (Suc i))"
    by (simp add: Let_def)
  show ?case
  proof (cases "?w > col")
    case True
    then show ?thesis using Cons.prems unfolding step by (simp add: cell_count_simps)
  next
    case False
    then have le: "?w \<le> col" by simp
    define r where "r = wrap_loop wcw col cs ?w (Suc i)"
    define k where "k = r - Suc i"
    have ih: "r \<le> Suc i + length cs" "Suc i \<le> r"
      "?w + cell_count wcw (take k cs) \<le> col"
      "r < Suc i + length cs \<longrightarrow> col < ?w + cell_count wcw (take (Suc k) cs)"
      using Cons.IH[OF le, of "Suc i"] unfolding r_def k_def by blast+
    have d: "r - i = Suc k" using ih(2) by (simp add: k_def)
    have e: "wrap_loop wcw col (c # cs) w i = r"
      unfolding step r_def using False by simp
    show ?thesis
      unfolding e d using ih
      by (auto simp: cell_count_simps)
  qed
qed

lemma wrap_loop_longest:
  "wrap_loop wcw col str 0 0 \<le> length str
   \<and> cell_count wcw (take (wrap_loop wcw col str 0 0) str) \<le> col
   \<and> (\<forall>j. j \<le> length str \<and> cell_count wcw (take j str) \<le> col
            \<longrightarrow> j \<le> wrap_loop wcw col str 0 0)"
proof -
  let ?i = "wrap_loop wcw col str 0 0"
  have s: "?i \<le> length str" "cell_count wcw (take ?i str) \<le> col"
    "?i < length str \<longrightarrow> col < cell_count wcw (take (Suc ?i) str)"
    using wrap_loop_spec[of 0 col wcw str 0] by simp_all
  have "j \<le> ?i" if j: "j \<le> length str" "cell_count wcw (take j str) \<le> col" for j
  proof (rule ccontr)
    assume "\<not> j \<le> ?i"
    then have lt: "Suc ?i \<le> j" by simp
    then have "?i < length str" using j(1) by simp
    with s(3) have "col < cell_count wcw (take (Suc ?i) str)" by blast
    also have "\<dots> \<le> cell_count wcw (take j str)" using lt by (rule cell_count_take_mono)
    finally show False using j(2) by simp
  qed
  with s(1,2) show ?thesis by blast
qed

lemma wrap_loop_replicate:
  assumes "wcw c = int d" and "0 < d" and "w \<le> col"
  shows "wrap_loop wcw col (replicate n c) w i = i + min n ((col - w) div d)"
  using assms(3)
proof (induction n arbitrary: w i)
  case 0
  then show ?case by simp
next
  case (Suc n)
  show ?case
  proof (cases "w + d > col")
    case True
    then have "(col - w) div d = 0" using Suc.prems by simp
    then show ?thesis using True assms(1) by (simp add: Let_def)
  next
    case False
    then have le: "w + d \<le> col" by simp
    have "(col - w) div d = Suc ((col - (w + d)) div d)"
      using le assms(2) le_div_geq[of d "col - w"] by simp
    then show ?thesis using False assms(1) Suc.IH[OF le, of "Suc i"]
      by (simp add: Let_def)
  qed
qed

lemma sample_wide_simps:
  "sample_wide 0 = []"
  "sample_wide (Suc n) = 227 # 129 # 130 # sample_wide n"
  "length (sample_wide n) = 3 * n"
  by (simp_all add: sample_wide_def length_concat sum_list_replicate)

lemma sample_wide_add: "sample_wide (m + n) = sample_wide m @ sample_wide n"
  by (simp add: sample_wide_def replicate_add)

lemma sample_wide_drop:
  "m \<le> n \<Longrightarrow> drop (3 * m) (sample_wide n @ r) = sample_wide (n - m) @ r"
  using sample_wide_add[of m "n - m"] by (simp add: sample_wide_simps)

lemma sample_wide_take:
  "m \<le> n \<Longrightarrow> take (3 * m) (sample_wide n @ r) = sample_wide m"
  using sample_wide_add[of m "n - m"] by (simp add: sample_wide_simps)

lemma get_char_wide: "g_utf8_get_char (227 # 129 # 130 # bs) = 12354"
  by (simp add: g_utf8_get_char_def utf8_length_def utf8_first_def numeral_2_eq_2)

lemma skip_wide: "g_utf8_skip 227 = 3"
  by (simp add: g_utf8_skip_def utf8_length_def)

lemma sample_wide_nth:
  assumes "m < n"
  shows "byte_at (sample_wide n @ r) (3 * m) = 227"
    and "byte_at (sample_wide n @ r) (3 * m + 1) = 129"
    and "byte_at (sample_wide n @ r) (3 * m + 2) = 130"
    and "g_utf8_get_char (drop (3 * m) (sample_wide n @ r)) = 12354"
proof -
  obtain k where k: "n - m = Suc k" using assms by (cases "n - m") simp_all
  have d: "drop (3 * m) (sample_wide n @ r) = 227 # 129 # 130 # sample_wide k @ r"
    using assms sample_wide_drop[of m n r] by (simp add: k sample_wide_simps)
  have len: "3 * m + 2 < length (sample_wide n @ r)" using assms by (simp add: sample_wide_simps)
  have "(sample_wide n @ r) ! (3 * m + j) = drop (3 * m) (sample_wide n @ r) ! j" for j
    using len by (subst nth_drop) simp_all
  from this[of 0] this[of 1] this[of 2]
  show "byte_at (sample_wide n @ r) (3 * m) = 227"
    "byte_at (sample_wide n @ r) (3 * m + 1) = 129"
    "byte_at (sample_wide n @ r) (3 * m + 2) = 130"
    using len unfolding d by (simp_all add: byte_at_def)
  show "g_utf8_get_char (drop (3 * m) (sample_wide n @ r)) = 12354"
    unfolding d by (rule get_char_wide)
qed

lemma sample_wide_plain:
  assumes "m < n"
  shows "plain_at (sample_wide n @ r) (3 * m)"
proof -
  have "3 * m < length (sample_wide n @ r)" using assms by (simp add: sample_wide_simps)
  then show ?thesis
    unfolding plain_at_def sample_wide_nth(4)[OF assms] by (simp add: INVALID_CHAR_def)
qed

lemma sample_wide_offset:
  "a + j \<le> n \<Longrightarrow> g_utf8_offset_to_pointer (sample_wide n @ r) (3 * a) j = 3 * (a + j)"
proof (induction j arbitrary: a)
  case 0
  then show ?case by (simp add: g_utf8_offset_to_pointer.simps)
next
  case (Suc j)
  then have "a < n" by simp
  then have "byte_at (sample_wide n @ r) (3 * a) = 227" by (rule sample_wide_nth(1))
  moreover have "g_utf8_offset_to_pointer (sample_wide n @ r) (3 * Suc a) j = 3 * (Suc a + j)"
    using Suc.prems by (intro Suc.IH) simp
  ultimately show ?case by (simp add: g_utf8_offset_to_pointer.simps skip_wide add.commute)
qed

lemma sample_wide_prev:
  assumes "0 < m" and "m \<le> n"
  shows "g_utf8_prev_char (sample_wide n @ r) (3 * m) = Some (3 * (m - 1))"
proof -
  obtain k where k: "m = Suc k" using assms(1) by (cases m) simp_all
  have kn: "k < n" using assms(2) k by simp
  have e: "3 * m = Suc (Suc (Suc (3 * k)))" by (simp add: k)
  have b: "byte_at (sample_wide n @ r) (Suc (Suc (3 * k))) = 130"
    "byte_at (sample_wide n @ r) (Suc (3 * k)) = 129"
    "byte_at (sample_wide n @ r) (3 * k) = 227"
    using sample_wide_nth(1-3)[OF kn, of r] by simp_all
  show ?thesis unfolding e by (simp add: g_utf8_prev_char.simps b k)
qed

lemma sample_wide_ucs4: "g_utf8_to_ucs4 (sample_wide n) = Some (replicate n 12354)"
proof (induction n)
  case 0
  then show ?case by (simp add: sample_wide_simps g_utf8_to_ucs4.simps)
next
  case (Suc n)
  have "utf8_length 227 = 3" by (simp add: utf8_length_def)
  then show ?case using Suc
    by (simp add: sample_wide_simps g_utf8_to_ucs4.simps get_char_wide utf8_min_code_def
        INVALID_CHAR_def Let_def)
qed

lemma sample_wide_strlen: "g_utf8_strlen (sample_wide n) = n"
  by (induction n) (simp_all add: sample_wide_simps g_utf8_strlen.simps skip_wide)

lemma sample_wide_utf8: "g_ucs4_to_utf8 (replicate n 12354) = Some (sample_wide n)"
proof -
  have "g_unichar_to_utf8 12354 = [227, 129, 130]" by (simp add: g_unichar_to_utf8_def)
  then show ?thesis by (simp add: g_ucs4_to_utf8_def sample_wide_def map_replicate_const)
qed

lemma sample_cpi_layout_fields [simp]:
  "cups_mode sample_cpi_layout = False" "cpi sample_cpi_layout = 10"
  "do_wordwrap sample_cpi_layout = True" "do_justify sample_cpi_layout = False"
  "pango_dir sample_cpi_layout = PANGO_DIRECTION_LTR" "column_width sample_cpi_layout = 360"
  by (simp_all add: sample_cpi_layout_def)

lemma sample_cpi_columns: "cpi_columns sample_cpi_layout = Some 50"
proof -
  have t1: "to_double 5 = 5"
    by (subst to_double_eval[where e = 2 and k = 5629499534213120])
       (simp_all add: power_int_minus round_even_def Let_def)
  have t2: "to_double 50 = 50"
    by (subst to_double_eval[where e = 5 and k = 7036874417766400])
       (simp_all add: power_int_minus round_even_def Let_def)
  have n: "real_of_int 360 / 72.0 = 5" "(5::real) * 10 = 50" by simp_all
  show ?thesis
    unfolding cpi_columns_def sample_cpi_layout_fields d_div_def d_mul_def n t1 t2
    by (simp add: c_trunc_def)
qed

lemma sample_wide_cells: "cell_count (wcwidth sample_scan_env) (replicate n 12354) = 2 * n"
  by (induction n) (simp_all add: cell_count_def)

lemma boundary_block_cut:
  assumes "cpi pl > 0" and "do_wordwrap pl"
    and "take (p - lastp) (drop lastp text) = str"
    and "g_utf8_to_ucs4 str = Some wtext"
    and "cpi_columns pl = Some col"
    and "g_utf8_strlen str > col"
    and "wrap_loop (wcwidth env) col (take (g_utf8_strlen str) wtext) 0 0 = i"
    and "g_ucs4_to_utf8 (take i wtext) = Some newtext"
    and "g_utf8_offset_to_pointer text lastp i = nxt"
    and "g_utf8_prev_char text nxt = Some q"
  shows "boundary_block env pl text lastp p next wc pw
       = Block_ok (pango_layout_new\<lparr>layout_text := newtext, layout_width := - 1\<rparr>) i nxt
           (g_utf8_get_char (drop q text))
           (layout_logical_width env (pango_layout_new\<lparr>layout_text := newtext\<rparr>) sdiv PANGO_SCALE)"
  using assms by (simp add: boundary_block_def Let_def)

lemma boundary_block_whole:
  assumes "cpi pl > 0" and "do_wordwrap pl"
    and "take (p - lastp) (drop lastp text) = str"
    and "g_utf8_to_ucs4 str = Some wtext"
    and "cpi_columns pl = Some col"
    and "g_utf8_strlen str \<le> col"
  shows "boundary_block env pl text lastp p next wc pw
       = Block_ok (pango_layout_new\<lparr>layout_text := str, layout_width := - 1\<rparr>) (p - lastp) next
           wc pw"
  using assms by (simp add: boundary_block_def Let_def)

lemma scan_step_boundary:
  assumes "scan_p s < length text"
    and "g_utf8_get_char (drop (scan_p s) text) = wc" and "wc = 10 \<or> wc = 12"
    and "boundary_block env pl text (last_para s) (scan_p s)
           (scan_p s + g_utf8_skip (byte_at text (scan_p s))) wc (paint_width s)
         = Block_ok layout len nxt wc' pw"
    and "wc' \<noteq> 0"
  shows "scan_step env pl text s
       = Continue \<lparr>scan_p = nxt, last_para = nxt,
           result = new_paragraph pl (last_para s) len wc' layout # result s,
           paint_width = pw\<rparr>"
  using assms by (auto simp: scan_step_def Let_def INVALID_CHAR_def)

lemma wide_60_first:
  "scan_step sample_scan_env sample_cpi_layout (sample_wide 60 @ [10])
     \<lparr>scan_p = 180, last_para = 0, result = [], paint_width = 523\<rparr>
   = Continue \<lparr>scan_p = 75, last_para = 75,
       result = [new_paragraph sample_cpi_layout 0 25 12354
                   (pango_layout_new\<lparr>layout_text := sample_wide 25, layout_width := - 1\<rparr>)],
       paint_width = 540\<rparr>"
proof -
  let ?T = "sample_wide 60 @ [10]"
  let ?s = "\<lparr>scan_p = 180, last_para = 0, result = [], paint_width = 523\<rparr>"
  have len: "scan_p ?s < length ?T" by (simp add: sample_wide_simps)
  have "drop 180 ?T = [10]"
    using sample_wide_drop[of 60 60 "[10]"] by (simp add: sample_wide_simps)
  then have d: "g_utf8_get_char (drop (scan_p ?s) ?T) = 10" by (simp add: get_char_ascii)
  have str: "take (180 - 0) (drop 0 ?T) = sample_wide 60"
    using sample_wide_take[of 60 60 "[10]"] by simp
  have w: "wrap_loop (wcwidth sample_scan_env) 50
             (take (g_utf8_strlen (sample_wide 60)) (replicate 60 12354)) 0 0 = 25"
    using wrap_loop_replicate[of "wcwidth sample_scan_env" 12354 2 0 50 60 0]
    by (simp add: sample_wide_strlen)
  have e: "g_ucs4_to_utf8 (take 25 (replicate 60 12354)) = Some (sample_wide 25)"
    using sample_wide_utf8[of 25] by simp
  have o: "g_utf8_offset_to_pointer ?T 0 25 = 75"
    using sample_wide_offset[of 0 25 60 "[10]"] by simp
  have pc: "g_utf8_prev_char ?T 75 = Some 72"
    using sample_wide_prev[of 25 60 "[10]"] by simp
  have gc: "g_utf8_get_char (drop 72 ?T) = 12354"
    using sample_wide_nth(4)[of 24 60 "[10]"] by simp
  have pw: "layout_logical_width sample_scan_env (pango_layout_new\<lparr>layout_text := sample_wide 25\<rparr>)
              sdiv PANGO_SCALE = 540"
    by (simp add: sample_wide_simps PANGO_SCALE_def signed_divide_int_def)
  have bb: "boundary_block sample_scan_env sample_cpi_layout ?T 0 180 n 10 523
     = Block_ok (pango_layout_new\<lparr>layout_text := sample_wide 25, layout_width := - 1\<rparr>)
         25 75 12354 540" for n
  proof -
    have c: "cpi sample_cpi_layout > 0" "do_wordwrap sample_cpi_layout"
      "g_utf8_strlen (sample_wide 60) > 50"
      by (simp_all add: sample_wide_strlen)
    show ?thesis
      using boundary_block_cut[of sample_cpi_layout 180 0 ?T "sample_wide 60" "replicate 60 12354"
        50 sample_scan_env 25 "sample_wide 25" 75 72 n 10 523, OF c(1,2) str sample_wide_ucs4
        sample_cpi_columns c(3) w e o pc]
      unfolding gc pw .
  qed
  have bb': "boundary_block sample_scan_env sample_cpi_layout ?T (last_para ?s) (scan_p ?s)
           (scan_p ?s + g_utf8_skip (byte_at ?T (scan_p ?s))) 10 (paint_width ?s)
     = Block_ok (pango_layout_new\<lparr>layout_text := sample_wide 25, layout_width := - 1\<rparr>)
         25 75 12354 540"
    using bb by simp
  show ?thesis
    using scan_step_boundary[OF len d _ bb'] by simp
qed

lemma wide_60_second:
  "scan_step sample_scan_env sample_cpi_layout (sample_wide 60 @ [10])
     \<lparr>scan_p = 180, last_para = 75, result = ps, paint_width = 540\<rparr>
   = Continue \<lparr>scan_p = 181, last_para = 181,
       result = new_paragraph sample_cpi_layout 75 105 10
                   (pango_layout_new\<lparr>layout_text := sample_wide 35, layout_width := - 1\<rparr>) # ps,
       paint_width = 540\<rparr>"
proof -
  let ?T = "sample_wide 60 @ [10]"
  let ?s = "\<lparr>scan_p = 180, last_para = 75, result = ps, paint_width = 540\<rparr>"
  have l: "length ?T = 181" by (simp add: sample_wide_simps)
  have len: "scan_p ?s < length ?T" by (simp add: sample_wide_simps)
  have "drop 180 ?T = [10]"
    using sample_wide_drop[of 60 60 "[10]"] by (simp add: sample_wide_simps)
  then have d: "g_utf8_get_char (drop (scan_p ?s) ?T) = 10" by (simp add: get_char_ascii)
  have "drop 75 ?T = sample_wide 35 @ [10]" using sample_wide_drop[of 25 60 "[10]"] by simp
  then have str: "take (180 - 75) (drop 75 ?T) = sample_wide 35"
    by (simp only:) (simp add: sample_wide_simps)
  have "?T ! 180 = 10" by (simp add: nth_append sample_wide_simps)
  then have b: "byte_at ?T 180 = 10" unfolding byte_at_def l by simp
  have bb: "boundary_block sample_scan_env sample_cpi_layout ?T 75 180 n 10 540
     = Block_ok (pango_layout_new\<lparr>layout_text := sample_wide 35, layout_width := - 1\<rparr>)
         105 n 10 540" for n
  proof -
    have c: "cpi sample_cpi_layout > 0" "do_wordwrap sample_cpi_layout"
      "g_utf8_strlen (sample_wide 35) \<le> 50"
      by (simp_all add: sample_wide_strlen)
    have "(180::nat) - 75 = 105" by simp
    then show ?thesis
      using boundary_block_whole[of sample_cpi_layout 180 75 ?T "sample_wide 35"
        "replicate 35 12354" 50 sample_scan_env n 10 540, OF c(1,2) str sample_wide_ucs4
        sample_cpi_columns c(3)]
      by (simp only:)
  qed
  have bb': "boundary_block sample_scan_env sample_cpi_layout ?T (last_para ?s) (scan_p ?s)
           (scan_p ?s + g_utf8_skip (byte_at ?T (scan_p ?s))) 10 (paint_width ?s)
     = Block_ok (pango_layout_new\<lparr>layout_text := sample_wide 35, layout_width := - 1\<rparr>)
         105 181 10 540"
    using bb[of 181] by (simp add: b skip_ascii)
  show ?thesis
    using scan_step_boundary[OF len d _ bb'] by simp
qed

lemma wide_60_run:
  "split_text_into_paragraphs 98 sample_scan_env sample_cpi_layout 523 (sample_wide 60 @ [10])
   = Some (Inr [new_paragraph sample_cpi_layout 0 25 12354
                  (pango_layout_new\<lparr>layout_text := sample_wide 25, layout_width := - 1\<rparr>),
                new_paragraph sample_cpi_layout 75 105 10
                  (pango_layout_new\<lparr>layout_text := sample_wide 35, layout_width := - 1\<rparr>)])"
proof -
  let ?T = "sample_wide 60 @ [10]"
  let ?E = sample_scan_env
  let ?L = sample_cpi_layout
  let ?P1 = "new_paragraph sample_cpi_layout 0 25 12354
                  (pango_layout_new\<lparr>layout_text := sample_wide 25, layout_width := - 1\<rparr>)"
  let ?P2 = "new_paragraph sample_cpi_layout 75 105 10
                  (pango_layout_new\<lparr>layout_text := sample_wide 35, layout_width := - 1\<rparr>)"
  let ?s0 = "\<lparr>scan_p = 0, last_para = 0, result = [], paint_width = 523\<rparr>"
  let ?s1 = "\<lparr>scan_p = 75, last_para = 75, result = [?P1], paint_width = 540\<rparr>"
  have r1: "\<forall>j<60. plain_at ?T (g_utf8_offset_to_pointer ?T (scan_p ?s0) j)"
  proof (intro allI impI)
    fix j :: nat assume j: "j < 60"
    then have "g_utf8_offset_to_pointer ?T (3 * 0) j = 3 * (0 + j)"
      by (intro sample_wide_offset) simp
    then show "plain_at ?T (g_utf8_offset_to_pointer ?T (scan_p ?s0) j)"
      using sample_wide_plain[OF j, of "[10]"] by simp
  qed
  have r2: "\<forall>j<35. plain_at ?T (g_utf8_offset_to_pointer ?T (scan_p ?s1) j)"
  proof (intro allI impI)
    fix j :: nat assume j: "j < 35"
    then have "g_utf8_offset_to_pointer ?T (3 * 25) j = 3 * (25 + j)"
      by (intro sample_wide_offset) simp
    moreover have "25 + j < 60" using j by simp
    ultimately show "plain_at ?T (g_utf8_offset_to_pointer ?T (scan_p ?s1) j)"
      using sample_wide_plain[of "25 + j" 60 "[10]"] by simp
  qed
  have o1: "g_utf8_offset_to_pointer ?T (scan_p ?s0) 60 = 180"
    using sample_wide_offset[of 0 60 60 "[10]"] by simp
  have o2: "g_utf8_offset_to_pointer ?T (scan_p ?s1) 35 = 180"
    using sample_wide_offset[of 25 35 60 "[10]"] by simp
  have last: "scan_step ?E ?L ?T \<lparr>scan_p = 181, last_para = 181, result = [?P2, ?P1], paint_width = 540\<rparr>
      = Return (Inr [?P1, ?P2])"
    by (simp add: scan_step_def sample_wide_simps)
  have a: "scan (60 + Suc (35 + Suc (Suc 0))) ?E ?L ?T ?s0
      = scan (Suc (35 + Suc (Suc 0))) ?E ?L ?T
          (?s0\<lparr>scan_p := g_utf8_offset_to_pointer ?T (scan_p ?s0) 60\<rparr>)"
    using r1 by (rule scan_skip)
  have b: "scan (35 + Suc (Suc 0)) ?E ?L ?T ?s1
      = scan (Suc (Suc 0)) ?E ?L ?T (?s1\<lparr>scan_p := g_utf8_offset_to_pointer ?T (scan_p ?s1) 35\<rparr>)"
    using r2 by (rule scan_skip)
  have e1: "?s0\<lparr>scan_p := g_utf8_offset_to_pointer ?T (scan_p ?s0) 60\<rparr>
      = \<lparr>scan_p = 180, last_para = 0, result = [], paint_width = 523\<rparr>"
    unfolding o1 by simp
  have e2: "?s1\<lparr>scan_p := g_utf8_offset_to_pointer ?T (scan_p ?s1) 35\<rparr>
      = \<lparr>scan_p = 180, last_para = 75, result = [?P1], paint_width = 540\<rparr>"
    unfolding o2 by simp
  have "scan (60 + Suc (35 + Suc (Suc 0))) ?E ?L ?T ?s0 = Some (Inr [?P1, ?P2])"
    by (simp only: a e1 scan_continue[OF wide_60_first] b e2 scan_continue[OF wide_60_second]
        scan_return[OF last])
  moreover have "(98::nat) = 60 + Suc (35 + Suc (Suc 0))" by simp
  ultimately show ?thesis by (simp only: split_text_into_paragraphs_def)
qed


text \<open>
  Claim C2, on its own example with characters two cells wide. At cpi = 10 and a column of
  360 points the budget is 50. A paragraph of 60 times U+3042 is 120 cells wide. The test
  that decides whether to rewrap compares the number of characters with the budget, and
  only the loop that finds the cut adds up cells: the paragraph is cut after 25 characters
  (50 cells), and the rest, 35 characters, is not more than 50 characters and is kept
  whole, at 70 cells. The scan returns two paragraphs, the second wider than the budget.
  (The length of the first is in characters, that of the second in bytes.)
\<close>

theorem cpi_rewrap_counts_characters:
  "cpi_columns sample_cpi_layout = Some 50
   \<and> g_utf8_to_ucs4 (sample_wide 60) = Some (replicate 60 12354)
   \<and> cell_count (wcwidth sample_scan_env) (replicate 60 12354) = 120
   \<and> map_option (map_sum id (map para_view))
        (split_text_into_paragraphs 98 sample_scan_env sample_cpi_layout 523
           (sample_wide 60 @ [10]))
      = Some (Inr [(0, 25, False, sample_wide 25), (75, 105, False, sample_wide 35)])
   \<and> g_utf8_to_ucs4 (sample_wide 25) = Some (replicate 25 12354)
   \<and> cell_count (wcwidth sample_scan_env) (replicate 25 12354) = 50
   \<and> g_utf8_to_ucs4 (sample_wide 35) = Some (replicate 35 12354)
   \<and> cell_count (wcwidth sample_scan_env) (replicate 35 12354) = 70"
proof -
  have "map_option (map_sum id (map para_view))
        (split_text_into_paragraphs 98 sample_scan_env sample_cpi_layout 523
           (sample_wide 60 @ [10]))
      = Some (Inr [(0, 25, False, sample_wide 25), (75, 105, False, sample_wide 35)])"
    unfolding wide_60_run
    by (simp add: para_view_def new_paragraph_def pango_layout_new_def)
  then show ?thesis
    by (simp add: sample_cpi_columns sample_wide_ucs4 sample_wide_cells)
qed

text \<open>The budget is the program's: at a column of 296 points and cpi = 27 the product is
  just below 111, and 110 characters fit. For a negative column width the conversion of the
  product to \<^verbatim>\<open>gsize\<close> is undefined.\<close>

lemma cpi_columns_rounded:
  "cpi_columns (sample_layout\<lparr>cpi := 27, column_width := 296\<rparr>) = Some 110"
proof -
  have t1: "to_double (296 / 72) = 4628699617019676 / 2 ^ 50"
    by (subst to_double_eval[where e = 2 and k = 4628699617019676])
       (simp_all add: power_int_minus round_even_def Let_def)
  have t2: "to_double (4628699617019676 / 2 ^ 50 * 27) = 7810930603720703 / 2 ^ 46"
    by (subst to_double_eval[where e = 6 and k = 7810930603720703])
       (simp_all add: power_int_minus round_even_def Let_def)
  have n: "real_of_int 296 / 72.0 = 296 / 72" by simp
  have f: "column_width (sample_layout\<lparr>cpi := 27, column_width := 296\<rparr>) = 296"
    "cpi (sample_layout\<lparr>cpi := 27, column_width := 296\<rparr>) = 27" by simp_all
  show ?thesis
    unfolding cpi_columns_def f d_div_def d_mul_def n t1 t2 by (simp add: c_trunc_def)
qed

lemma cpi_columns_negative:
  "cpi_columns (sample_layout\<lparr>cpi := 10, column_width := - 100\<rparr>) = None"
proof -
  have t1: "to_double (- 100 / 72) = - (6254999482459022 / 2 ^ 52)"
    by (subst to_double_eval[where e = 0 and k = 6254999482459022])
       (simp_all add: power_int_minus round_even_def Let_def)
  have t2: "to_double (- (6254999482459022 / 2 ^ 52) * 10) = - (7818749353073778 / 2 ^ 49)"
    by (subst to_double_eval[where e = 3 and k = 7818749353073778])
       (simp_all add: power_int_minus round_even_def Let_def)
  have n: "real_of_int (- 100) / 72.0 = - 100 / 72" by simp
  have f: "column_width (sample_layout\<lparr>cpi := 10, column_width := - 100\<rparr>) = - 100"
    "cpi (sample_layout\<lparr>cpi := 10, column_width := - 100\<rparr>) = 10" by simp_all
  show ?thesis
    unfolding cpi_columns_def f d_div_def d_mul_def n t1 t2 by simp
qed


lemma ascii_nth:
  assumes "m < n"
  shows "byte_at (replicate n 97 @ r) m = 97"
    and "g_utf8_get_char (drop m (replicate n 97 @ r)) = 97"
    and "plain_at (replicate n 97 @ r) m"
proof -
  obtain k where k: "n - m = Suc k" using assms by (cases "n - m") simp_all
  have d: "drop m (replicate n 97 @ r) = 97 # replicate k 97 @ r"
    using assms by (simp add: k)
  show "byte_at (replicate n 97 @ r) m = 97"
    using assms by (simp add: byte_at_def nth_append)
  show g: "g_utf8_get_char (drop m (replicate n 97 @ r)) = 97"
    unfolding d by (simp add: get_char_ascii)
  have "m < length (replicate n 97 @ r)" using assms by simp
  then show "plain_at (replicate n 97 @ r) m"
    unfolding plain_at_def g by (simp add: INVALID_CHAR_def)
qed

lemma ascii_offset:
  "a + j \<le> n \<Longrightarrow> g_utf8_offset_to_pointer (replicate n 97 @ r) a j = a + j"
proof (induction j arbitrary: a)
  case 0
  then show ?case by (simp add: g_utf8_offset_to_pointer.simps)
next
  case (Suc j)
  then have "a < n" by simp
  then have "byte_at (replicate n 97 @ r) a = 97" by (rule ascii_nth(1))
  moreover have "g_utf8_offset_to_pointer (replicate n 97 @ r) (Suc a) j = Suc a + j"
    using Suc.prems by (intro Suc.IH) simp
  ultimately show ?case by (simp add: g_utf8_offset_to_pointer.simps skip_ascii)
qed

lemma ascii_prev:
  assumes "0 < m" and "m \<le> n"
  shows "g_utf8_prev_char (replicate n 97 @ r) m = Some (m - 1)"
proof -
  obtain k where k: "m = Suc k" using assms(1) by (cases m) simp_all
  have "byte_at (replicate n 97 @ r) k = 97" using assms(2) k by (intro ascii_nth(1)) simp
  then show ?thesis unfolding k by (simp add: g_utf8_prev_char.simps)
qed

lemma ascii_ucs4: "g_utf8_to_ucs4 (replicate n 97) = Some (replicate n 97)"
  by (induction n)
     (simp_all add: g_utf8_to_ucs4.simps utf8_length_ascii get_char_ascii utf8_min_code_def
        INVALID_CHAR_def Let_def)

lemma ascii_strlen: "g_utf8_strlen (replicate n 97) = n"
  by (induction n) (simp_all add: g_utf8_strlen.simps skip_ascii)

lemma ascii_utf8: "g_ucs4_to_utf8 (replicate n 97) = Some (replicate n 97)"
proof -
  have "g_unichar_to_utf8 97 = [97]" by (simp add: g_unichar_to_utf8_def)
  then show ?thesis by (simp add: g_ucs4_to_utf8_def map_replicate_const)
qed

lemma ascii_skip:
  assumes "a + k \<le> n"
  shows "scan (k + fuel) env pl (replicate n 97 @ r)
           \<lparr>scan_p = a, last_para = l, result = ps, paint_width = w\<rparr>
       = scan fuel env pl (replicate n 97 @ r)
           \<lparr>scan_p = a + k, last_para = l, result = ps, paint_width = w\<rparr>"
proof -
  let ?T = "replicate n 97 @ r"
  let ?s = "\<lparr>scan_p = a, last_para = l, result = ps, paint_width = w\<rparr>"
  have "\<forall>j<k. plain_at ?T (g_utf8_offset_to_pointer ?T (scan_p ?s) j)"
  proof (intro allI impI)
    fix j assume j: "j < k"
    then have "g_utf8_offset_to_pointer ?T a j = a + j" using assms by (intro ascii_offset) simp
    moreover have "a + j < n" using j assms by simp
    ultimately show "plain_at ?T (g_utf8_offset_to_pointer ?T (scan_p ?s) j)"
      using ascii_nth(3)[of "a + j" n r] by simp
  qed
  from scan_skip[OF this, of fuel env pl] show ?thesis
    using ascii_offset[OF assms, of r] by simp
qed

lemma ascii_cut:
  assumes "a + 50 < n"
  shows "scan_step sample_scan_env sample_cpi_layout (replicate n 97 @ [10])
           \<lparr>scan_p = n, last_para = a, result = ps, paint_width = w\<rparr>
       = Continue \<lparr>scan_p = a + 50, last_para = a + 50,
           result = new_paragraph sample_cpi_layout a 50 97
                      (pango_layout_new\<lparr>layout_text := replicate 50 97, layout_width := - 1\<rparr>) # ps,
           paint_width = 360\<rparr>"
proof -
  let ?T = "replicate n 97 @ [10]"
  let ?s = "\<lparr>scan_p = n, last_para = a, result = ps, paint_width = w\<rparr>"
  have len: "scan_p ?s < length ?T" by simp
  have d: "g_utf8_get_char (drop (scan_p ?s) ?T) = 10" by (simp add: get_char_ascii)
  have str: "take (n - a) (drop a ?T) = replicate (n - a) 97" using assms by simp
  have c: "cpi sample_cpi_layout > 0" "do_wordwrap sample_cpi_layout"
    "g_utf8_strlen (replicate (n - a) 97) > 50"
    using assms by (simp_all add: ascii_strlen)
  have wl: "wrap_loop (wcwidth sample_scan_env) 50
      (take (g_utf8_strlen (replicate (n - a) 97)) (replicate (n - a) 97)) 0 0 = 50"
    using wrap_loop_replicate[of "wcwidth sample_scan_env" 97 1 0 50 "n - a" 0] assms
    by (simp add: ascii_strlen)
  have "min 50 (n - a) = 50" using assms by simp
  then have e: "g_ucs4_to_utf8 (take 50 (replicate (n - a) 97)) = Some (replicate 50 97)"
    using ascii_utf8[of 50] by simp
  have o: "g_utf8_offset_to_pointer ?T a 50 = a + 50"
    using assms by (intro ascii_offset) simp
  have pc: "g_utf8_prev_char ?T (a + 50) = Some (a + 49)"
    using ascii_prev[of "a + 50" n "[10]"] assms by simp
  have gc: "g_utf8_get_char (drop (a + 49) ?T) = 97"
    using assms by (intro ascii_nth(2)) simp
  have pw: "layout_logical_width sample_scan_env (pango_layout_new\<lparr>layout_text := replicate 50 97\<rparr>)
              sdiv PANGO_SCALE = 360"
    by (simp add: PANGO_SCALE_def signed_divide_int_def)
  have bb: "boundary_block sample_scan_env sample_cpi_layout ?T a n m 10 w
     = Block_ok (pango_layout_new\<lparr>layout_text := replicate 50 97, layout_width := - 1\<rparr>)
         50 (a + 50) 97 360" for m
    using boundary_block_cut[of sample_cpi_layout n a ?T "replicate (n - a) 97"
        "replicate (n - a) 97" 50 sample_scan_env 50 "replicate 50 97" "a + 50" "a + 49" m 10 w,
        OF c(1,2) str ascii_ucs4 sample_cpi_columns c(3) wl e o pc]
    unfolding gc pw .
  have bb': "boundary_block sample_scan_env sample_cpi_layout ?T (last_para ?s) (scan_p ?s)
           (scan_p ?s + g_utf8_skip (byte_at ?T (scan_p ?s))) 10 (paint_width ?s)
     = Block_ok (pango_layout_new\<lparr>layout_text := replicate 50 97, layout_width := - 1\<rparr>)
         50 (a + 50) 97 360"
    using bb by simp
  show ?thesis
    using scan_step_boundary[OF len d _ bb'] by simp
qed

lemma ascii_whole:
  assumes "a \<le> n" and "n \<le> a + 50"
  shows "scan_step sample_scan_env sample_cpi_layout (replicate n 97 @ [10])
           \<lparr>scan_p = n, last_para = a, result = ps, paint_width = w\<rparr>
       = Continue \<lparr>scan_p = Suc n, last_para = Suc n,
           result = new_paragraph sample_cpi_layout a (n - a) 10
                      (pango_layout_new\<lparr>layout_text := replicate (n - a) 97, layout_width := - 1\<rparr>) # ps,
           paint_width = w\<rparr>"
proof -
  let ?T = "replicate n 97 @ [10]"
  let ?s = "\<lparr>scan_p = n, last_para = a, result = ps, paint_width = w\<rparr>"
  have len: "scan_p ?s < length ?T" by simp
  have d: "g_utf8_get_char (drop (scan_p ?s) ?T) = 10" by (simp add: get_char_ascii)
  have str: "take (n - a) (drop a ?T) = replicate (n - a) 97" using assms by simp
  have c: "cpi sample_cpi_layout > 0" "do_wordwrap sample_cpi_layout"
    "g_utf8_strlen (replicate (n - a) 97) \<le> 50"
    using assms by (simp_all add: ascii_strlen)
  have b: "byte_at ?T n = 10" by (simp add: byte_at_def nth_append)
  have bb: "boundary_block sample_scan_env sample_cpi_layout ?T a n m 10 w
     = Block_ok (pango_layout_new\<lparr>layout_text := replicate (n - a) 97, layout_width := - 1\<rparr>)
         (n - a) m 10 w" for m
    using boundary_block_whole[of sample_cpi_layout n a ?T "replicate (n - a) 97"
        "replicate (n - a) 97" 50 sample_scan_env m 10 w, OF c(1,2) str ascii_ucs4
        sample_cpi_columns c(3)] .
  have bb': "boundary_block sample_scan_env sample_cpi_layout ?T (last_para ?s) (scan_p ?s)
           (scan_p ?s + g_utf8_skip (byte_at ?T (scan_p ?s))) 10 (paint_width ?s)
     = Block_ok (pango_layout_new\<lparr>layout_text := replicate (n - a) 97, layout_width := - 1\<rparr>)
         (n - a) (Suc n) 10 w"
    using bb[of "Suc n"] by (simp add: b skip_ascii)
  show ?thesis
    using scan_step_boundary[OF len d _ bb'] by simp
qed


text \<open>The example of the claim with characters one cell wide: 120 times the letter \<open>a\<close> and
  a newline, at a budget of 50, give three paragraphs of 50, 50 and 20 characters.\<close>

lemma sample_rewrap_120:
  "map_option (map_sum id (map para_view))
     (split_text_into_paragraphs 214 sample_scan_env sample_cpi_layout 523
        (replicate 120 97 @ [10]))
   = Some (Inr [(0, 50, False, replicate 50 97), (50, 50, False, replicate 50 97),
                (100, 20, False, replicate 20 97)])"
proof -
  let ?T = "replicate 120 97 @ [10] :: gchar list"
  let ?E = sample_scan_env
  let ?L = sample_cpi_layout
  let ?P1 = "new_paragraph ?L 0 50 97 (pango_layout_new\<lparr>layout_text := replicate 50 97, layout_width := - 1\<rparr>)"
  let ?P2 = "new_paragraph ?L 50 50 97 (pango_layout_new\<lparr>layout_text := replicate 50 97, layout_width := - 1\<rparr>)"
  let ?P3 = "new_paragraph ?L 100 20 10 (pango_layout_new\<lparr>layout_text := replicate 20 97, layout_width := - 1\<rparr>)"
  have s1: "scan (120 + Suc (70 + Suc (20 + Suc (Suc 0)))) ?E ?L ?T
              \<lparr>scan_p = 0, last_para = 0, result = [], paint_width = 523\<rparr>
      = scan (Suc (70 + Suc (20 + Suc (Suc 0)))) ?E ?L ?T
              \<lparr>scan_p = 0 + 120, last_para = 0, result = [], paint_width = 523\<rparr>"
    by (rule ascii_skip) simp
  have c1: "scan_step ?E ?L ?T \<lparr>scan_p = 120, last_para = 0, result = [], paint_width = 523\<rparr>
      = Continue \<lparr>scan_p = 0 + 50, last_para = 0 + 50, result = [?P1], paint_width = 360\<rparr>"
    by (rule ascii_cut) simp
  have s2: "scan (70 + Suc (20 + Suc (Suc 0))) ?E ?L ?T
              \<lparr>scan_p = 50, last_para = 50, result = [?P1], paint_width = 360\<rparr>
      = scan (Suc (20 + Suc (Suc 0))) ?E ?L ?T
              \<lparr>scan_p = 50 + 70, last_para = 50, result = [?P1], paint_width = 360\<rparr>"
    by (rule ascii_skip) simp
  have c2: "scan_step ?E ?L ?T \<lparr>scan_p = 120, last_para = 50, result = [?P1], paint_width = 360\<rparr>
      = Continue \<lparr>scan_p = 50 + 50, last_para = 50 + 50, result = [?P2, ?P1], paint_width = 360\<rparr>"
    by (rule ascii_cut) simp
  have s3: "scan (20 + Suc (Suc 0)) ?E ?L ?T
              \<lparr>scan_p = 100, last_para = 100, result = [?P2, ?P1], paint_width = 360\<rparr>
      = scan (Suc (Suc 0)) ?E ?L ?T
              \<lparr>scan_p = 100 + 20, last_para = 100, result = [?P2, ?P1], paint_width = 360\<rparr>"
    by (rule ascii_skip) simp
  have c3: "scan_step ?E ?L ?T \<lparr>scan_p = 120, last_para = 100, result = [?P2, ?P1], paint_width = 360\<rparr>
      = Continue \<lparr>scan_p = Suc 120, last_para = Suc 120,
          result = [new_paragraph ?L 100 (120 - 100) 10
                      (pango_layout_new\<lparr>layout_text := replicate (120 - 100) 97, layout_width := - 1\<rparr>),
                    ?P2, ?P1], paint_width = 360\<rparr>"
    by (rule ascii_whole) simp_all
  have n: "(0::nat) + 120 = 120" "(0::nat) + 50 = 50" "(50::nat) + 70 = 120" "(50::nat) + 50 = 100"
    "(100::nat) + 20 = 120" "(120::nat) - 100 = 20" by simp_all
  have last: "scan_step ?E ?L ?T \<lparr>scan_p = Suc 120, last_para = Suc 120,
          result = [?P3, ?P2, ?P1], paint_width = 360\<rparr> = Return (Inr [?P1, ?P2, ?P3])"
    by (simp add: scan_step_def)
  have "scan (120 + Suc (70 + Suc (20 + Suc (Suc 0)))) ?E ?L ?T
              \<lparr>scan_p = 0, last_para = 0, result = [], paint_width = 523\<rparr>
      = Some (Inr [?P1, ?P2, ?P3])"
    by (simp only: s1 n scan_continue[OF c1[unfolded n]] s2[unfolded n]
        scan_continue[OF c2[unfolded n]] s3[unfolded n] scan_continue[OF c3[unfolded n]]
        scan_return[OF last])
  moreover have "(214::nat) = 120 + Suc (70 + Suc (20 + Suc (Suc 0)))" by simp
  ultimately have "split_text_into_paragraphs 214 ?E ?L 523 ?T = Some (Inr [?P1, ?P2, ?P3])"
    by (simp only: split_text_into_paragraphs_def)
  then show ?thesis
    by (simp add: para_view_def new_paragraph_def pango_layout_new_def)
qed

subsection \<open>Reading the file\<close>

lemma fgets_chars_Cons:
  "0 < k \<Longrightarrow> fgets_chars k (c # cs) = (if c = CHR 0x0A then [c] else c # fgets_chars (k - 1) cs)"
  by (cases k) simp_all

lemma fgets_chars_Nil: "fgets_chars k [] = []"
  by (cases k) simp_all

lemma fgets_chars_prefix: "fgets_chars k cs @ drop (length (fgets_chars k cs)) cs = cs"
  by (induction k cs rule: fgets_chars.induct) simp_all

lemma fgets_chars_subset: "set (fgets_chars k cs) \<subseteq> set cs"
  by (induction k cs rule: fgets_chars.induct) auto

lemma c_str_no_nul: "CHR 0x00 \<notin> set buffer \<Longrightarrow> c_str buffer = buffer"
  by (auto simp: c_str_def takeWhile_eq_all_conv)

lemma fgets_Some:
  assumes "fgets n xs = Some (buffer, rest)"
  shows "buffer = fgets_chars (n - 1) xs" "rest = drop (length buffer) xs" "buffer @ rest = xs"
    "xs \<noteq> []"
proof -
  show b: "buffer = fgets_chars (n - 1) xs" and r: "rest = drop (length buffer) xs"
    and "xs \<noteq> []"
    using assms by (auto simp: fgets_def Let_def split: if_splits)
  show "buffer @ rest = xs" unfolding r unfolding b by (rule fgets_chars_prefix)
qed

lemma fgets_rest_shorter:
  assumes "fgets (BUFSIZE - 1) xs = Some (buffer, rest)"
  shows "length rest < length xs"
proof -
  from fgets_Some[OF assms] obtain c cs where f: "xs = c # cs" by (cases xs) simp_all
  obtain k where "BUFSIZE - 1 - 1 = Suc k"
    by (cases "BUFSIZE - 1 - 1") (simp_all add: BUFSIZE_def)
  then have "fgets_chars (BUFSIZE - 1 - 1) (c # cs) \<noteq> []"
    by (simp only: fgets_chars.simps) simp
  with fgets_Some(1,2)[OF assms] f show ?thesis by simp
qed

lemma read_loop_no_nul:
  "CHR 0x00 \<notin> set xs \<Longrightarrow> read_loop None inbuf xs = Inr (inbuf @ xs)"
proof (induction xs arbitrary: inbuf rule: length_induct)
  case (1 xs)
  show ?case
  proof (cases "fgets (BUFSIZE - 1) xs")
    case None
    then have "xs = []" by (simp add: fgets_def Let_def split: if_splits)
    show ?thesis by (subst read_loop.simps, unfold None) (simp add: \<open>xs = []\<close>)
  next
    case (Some br)
    obtain buffer rest where br: "br = (buffer, rest)" by (cases br)
    note f = fgets_Some[OF Some[unfolded br]]
    have nb: "CHR 0x00 \<notin> set buffer" using "1.prems" f(3) by auto
    have nr: "CHR 0x00 \<notin> set rest" using "1.prems" f(3) by auto
    have "length rest < length xs" using Some br by (simp add: fgets_rest_shorter)
    with "1.IH" nr have "read_loop None (inbuf @ buffer) rest = Inr ((inbuf @ buffer) @ rest)"
      by blast
    then show ?thesis
      by (subst read_loop.simps, unfold Some br) (simp add: c_str_no_nul[OF nb] f(3))
  qed
qed

lemma read_file_ends_with_newline:
  "read_file file handle = Inr text \<Longrightarrow> text \<noteq> [] \<and> last text = CHR 0x0A"
  by (auto simp: read_file_def split: sum.splits if_splits)

lemma read_file_no_nul:
  assumes "file \<noteq> []" "CHR 0x00 \<notin> set file"
  shows "read_file file None = Inr (if last file = CHR 0x0A then file else file @ [CHR 0x0A])"
  using assms by (simp add: read_file_def read_loop_no_nul)


lemma fgets_nul: "fgets (BUFSIZE - 1) [CHR 0x00] = Some ([CHR 0x00], [])"
proof -
  have "0 < BUFSIZE - 1 - 1" by (simp add: BUFSIZE_def)
  then have "fgets_chars (BUFSIZE - 1 - 1) [CHR 0x00] = [CHR 0x00]"
    by (simp add: fgets_chars_Cons fgets_chars_Nil)
  then show ?thesis by (simp add: fgets_def Let_def)
qed

lemma read_loop_end: "read_loop handle inbuf [] = Inr inbuf"
  by (subst read_loop.simps) (simp add: fgets_def)

text \<open>
  Claim C10, at a file that holds the single byte NUL and no conversion handle. The file
  is not empty; \<^verbatim>\<open>fgets\<close> stores the byte, and the string that \<^verbatim>\<open>g_string_append\<close>
  appends is empty, so \<^verbatim>\<open>inbuf\<close> is still empty after the loop. The test for the
  trailing newline then reads \<^verbatim>\<open>inbuf->str[inbuf->len-1]\<close> with \<^verbatim>\<open>len\<close> = 0, before the
  start of the buffer: no text that ends with a newline is returned.
\<close>

theorem read_file_nul_reads_before_buffer:
  "[CHR 0x00] \<noteq> [] \<and> read_loop None [] [CHR 0x00] = Inr []
   \<and> read_file [CHR 0x00] None = Inl Read_before_buffer"
proof -
  have "read_loop None [] [CHR 0x00] = Inr []"
    by (subst read_loop.simps, unfold fgets_nul) (simp add: c_str_def read_loop_end)
  then show ?thesis by (simp add: read_file_def)
qed

subsection \<open>The transformation in force when a line is shown\<close>

lemma ctm_after_simps:
  "ctm_after m [] = m"
  "ctm_after m ((who, c) # cr) = ctm_after (ctm_step m c) cr"
  "ctm_after m (a @ b) = ctm_after (ctm_after m a) b"
  by (simp_all add: ctm_after_def)

lemma shown_with_append:
  "shown_with m (a @ b) = shown_with m a @ shown_with (ctm_after m a) b"
proof (induction a arbitrary: m)
  case Nil
  then show ?case by (simp add: ctm_after_simps)
next
  case (Cons x a)
  obtain who c where x: "x = (who, c)" by (cases x)
  show ?case unfolding x using Cons.IH
    by (cases c) (simp_all add: ctm_after_simps)
qed

lemma page_ctm_header: "page_ctm e (pl\<lparr>header_height := h\<rparr>) = page_ctm e pl"
  by (simp add: page_ctm_def)

lemma page_ctm_no_scale: "Scale sx sy \<notin> set (page_ctm e pl)"
  by (simp add: page_ctm_def)

lemma start_page_ctm:
  "ctm_after m (start_page e cr pl n) = page_ctm e pl"
  "shown_with m (start_page e cr pl n) = shown_with m cr"
  by (simp_all add: start_page_def shown_with_append ctm_after_simps page_ctm_def)

lemma header_ctm:
  "ctm_after m (fst (draw_page_header_line_to_page e cr False pl n)) = ctm_after m cr"
  "(k, l) \<in> set (shown_with m (fst (draw_page_header_line_to_page e cr False pl n))) \<Longrightarrow>
     (k, l) \<in> set (shown_with m cr) \<or> k = ctm_after m cr"
  by (auto simp: draw_page_header_line_to_page_def Let_def shown_with_append ctm_after_simps
      split: prod.splits)

lemma begin_page_ctm:
  "ctm_after m (st_cr (begin_page e nh s)) = page_ctm e (st_layout s)"
  "(k, l) \<in> set (shown_with m (st_cr (begin_page e nh s))) \<Longrightarrow>
     (k, l) \<in> set (shown_with m (st_cr s)) \<or> k = page_ctm e (st_layout s)"
proof -
  let ?cr = "start_page e (st_cr s) (st_layout s) (page_idx s)"
  have cr: "st_cr (begin_page e nh s)
        = (if nh then fst (draw_page_header_line_to_page e ?cr False (st_layout s) (page_idx s))
           else ?cr)"
    by (simp add: begin_page_def Let_def split: prod.splits)
  show "ctm_after m (st_cr (begin_page e nh s)) = page_ctm e (st_layout s)"
    unfolding cr by (simp add: header_ctm start_page_ctm)
  assume "(k, l) \<in> set (shown_with m (st_cr (begin_page e nh s)))"
  then show "(k, l) \<in> set (shown_with m (st_cr s)) \<or> k = page_ctm e (st_layout s)"
    unfolding cr using header_ctm(2)[of k l m e ?cr "st_layout s" "page_idx s"]
    by (auto simp: start_page_ctm split: if_splits)
qed

lemma eject_ctm:
  "ctm_after m (eject_page cr) = ctm_after m cr"
  "shown_with m (eject_page cr) = shown_with m cr"
  "ctm_after m (eject_column cr pl i) = ctm_after m cr"
  "shown_with m (eject_column cr pl i) = shown_with m cr"
  by (simp_all add: eject_page_def eject_column_def Let_def shown_with_append ctm_after_simps)

lemma draw_line_ctm:
  "ctm_after m (draw_line_to_page cr i pos pl line) = ctm_after m cr"
  "shown_with m (draw_line_to_page cr i pos pl line) = shown_with m cr @ [(ctm_after m cr, line)]"
  by (simp_all add: draw_line_to_page_def Let_def shown_with_append ctm_after_simps)

lemma next_column_ctm:
  assumes "ctm_after m (st_cr s) = page_ctm e (st_layout s)"
  shows "ctm_after m (st_cr (next_column e nh s)) = page_ctm e (st_layout s)"
    and "(k, l) \<in> set (shown_with m (st_cr (next_column e nh s))) \<Longrightarrow>
     (k, l) \<in> set (shown_with m (st_cr s)) \<or> k = page_ctm e (st_layout s)"
proof -
  let ?t = "s\<lparr>column_y_pos := 0, column_idx := 0, st_cr := eject_page (st_cr s),
               page_idx := page_idx s + 1\<rparr>"
  have nc: "next_column e nh s
     = (if column_idx s + 1 = num_columns (st_layout s) then begin_page e nh ?t
        else s\<lparr>column_idx := column_idx s + 1, column_y_pos := 0,
               st_cr := eject_column (st_cr s) (st_layout s) (column_idx s + 1)\<rparr>)"
    by (simp add: next_column_def Let_def)
  show "ctm_after m (st_cr (next_column e nh s)) = page_ctm e (st_layout s)"
    unfolding nc using assms begin_page_ctm(1)[of m e nh ?t] by (simp add: eject_ctm)
  assume "(k, l) \<in> set (shown_with m (st_cr (next_column e nh s)))"
  then show "(k, l) \<in> set (shown_with m (st_cr s)) \<or> k = page_ctm e (st_layout s)"
    unfolding nc using begin_page_ctm(2)[of k l m e nh ?t]
    by (auto simp: eject_ctm split: if_splits)
qed

lemma loop_body_ctm:
  assumes "ctm_after m (st_cr s) = page_ctm e (st_layout s)"
  shows "ctm_after m (st_cr (loop_body e nh h s ll)) = page_ctm e (st_layout s)"
    and "(k, l) \<in> set (shown_with m (st_cr (loop_body e nh h s ll))) \<Longrightarrow>
     (k, l) \<in> set (shown_with m (st_cr s)) \<or> k = page_ctm e (st_layout s)"
proof -
  define s1 where "s1 = (if need_break h s ll then next_column e nh s else s)"
  have cr: "st_cr (loop_body e nh h s ll)
      = draw_line_to_page (st_cr s1) (column_idx s1)
          (column_y_pos s1 + line_height (st_layout s1) ll) (st_layout s1) (pango_line ll)"
    by (simp add: loop_body_def Let_def s1_def)
  have c1: "ctm_after m (st_cr s1) = page_ctm e (st_layout s)"
    unfolding s1_def using assms next_column_ctm(1)[OF assms, of nh] by simp
  have s1: "(k, l) \<in> set (shown_with m (st_cr s1)) \<Longrightarrow>
     (k, l) \<in> set (shown_with m (st_cr s)) \<or> k = page_ctm e (st_layout s)"
    unfolding s1_def using next_column_ctm(2)[OF assms, of k l nh] by (simp split: if_splits)
  show "ctm_after m (st_cr (loop_body e nh h s ll)) = page_ctm e (st_layout s)"
    unfolding cr by (simp add: draw_line_ctm c1)
  assume "(k, l) \<in> set (shown_with m (st_cr (loop_body e nh h s ll)))"
  then show "(k, l) \<in> set (shown_with m (st_cr s)) \<or> k = page_ctm e (st_layout s)"
    unfolding cr using s1 by (auto simp: draw_line_ctm c1)
qed

lemma foldl_loop_body_ctm:
  assumes "ctm_after m (st_cr s) = page_ctm e (st_layout s)"
    and "(k, l) \<in> set (shown_with m (st_cr (foldl (loop_body e nh h) s ls)))"
  shows "(k, l) \<in> set (shown_with m (st_cr s)) \<or> k = page_ctm e (st_layout s)"
  using assms
proof (induction ls arbitrary: s)
  case Nil
  then show ?case by simp
next
  case (Cons ll ls)
  let ?s = "loop_body e nh h s ll"
  obtain hh where hh: "st_layout ?s = (st_layout s)\<lparr>header_height := hh\<rparr>"
    using loop_body_layout by blast
  have pc: "page_ctm e (st_layout ?s) = page_ctm e (st_layout s)"
    by (simp add: hh page_ctm_header)
  have c: "ctm_after m (st_cr ?s) = page_ctm e (st_layout ?s)"
    using loop_body_ctm(1)[OF Cons.prems(1), of nh h ll] pc by simp
  from Cons.IH[OF c] Cons.prems(2)
  have "(k, l) \<in> set (shown_with m (st_cr ?s)) \<or> k = page_ctm e (st_layout s)"
    by (simp add: pc)
  then show ?case using loop_body_ctm(2)[OF Cons.prems(1), of k l nh h ll] by blast
qed

lemma lines_shown_unscaled:
  assumes "(k, l) \<in> set (shown_with m (fst (snd (output_pages e cr ls pl nh))))"
  shows "(k, l) \<in> set (shown_with m cr) \<or> (k = page_ctm e pl \<and> (\<forall>sx sy. Scale sx sy \<notin> set k))"
proof -
  let ?s0 = "\<lparr>column_idx = 0, column_y_pos = 0, page_idx = 1, prev_line_link = None,
        st_cr = cr, st_layout = pl\<rparr>"
  let ?i = "init_state e nh cr pl"
  have i: "?i = begin_page e nh ?s0" by (simp add: init_state_def)
  obtain hh where hh: "st_layout ?i = pl\<lparr>header_height := hh\<rparr>"
    using init_state_layout by blast
  have pc: "page_ctm e (st_layout ?i) = page_ctm e pl" by (simp add: hh page_ctm_header)
  have c: "ctm_after m (st_cr ?i) = page_ctm e (st_layout ?i)"
    unfolding pc unfolding i using begin_page_ctm(1)[of m e nh ?s0] by simp
  from assms have "(k, l) \<in> set (shown_with m (st_cr (foldl (loop_body e nh
      (column_height pl * PANGO_SCALE)) ?i ls)))"
    by (simp add: output_pages_def Let_def eject_ctm)
  from foldl_loop_body_ctm[OF c this]
  have "(k, l) \<in> set (shown_with m (st_cr ?i)) \<or> k = page_ctm e pl" by (simp add: pc)
  then have "(k, l) \<in> set (shown_with m cr) \<or> k = page_ctm e pl"
    unfolding i using begin_page_ctm(2)[of k l m e nh ?s0] by auto
  then show ?thesis using page_ctm_no_scale by blast
qed

lemma main_render_unscaled:
  assumes "(k, l) \<in> set (shown_with [] (fst (snd (main_render e shape [] pl ps nh))))"
  shows "\<forall>sx sy. Scale sx sy \<notin> set k"
proof -
  obtain lines pl' where sp: "split_paragraphs_into_lines shape pl ps = (lines, pl')"
    by (cases "split_paragraphs_into_lines shape pl ps")
  from assms have "(k, l) \<in> set (shown_with []
      (fst (snd (output_pages e [(In_main, Scale (scale_x pl') (scale_y pl'))] lines pl' nh))))"
    by (simp add: main_render_def sp)
  from lines_shown_unscaled[OF this] show ?thesis by auto
qed

subsection \<open>Scans that exit, emit nothing, or do not end\<close>

text \<open>The bytes C1 81 and a newline, with the rewrap for cpi in force: the conversion of the
  paragraph fails and the program exits.\<close>

lemma overlong_exits:
  "split_text_into_paragraphs 2 sample_scan_env sample_cpi_layout 523 [193, 129, 10]
   = Some (Inl Exit_1)"
proof -
  let ?T = "[193, 129, 10] :: gchar list"
  have g: "g_utf8_get_char ?T = 65"
    by (simp add: g_utf8_get_char_def utf8_length_def utf8_first_def)
  have k: "g_utf8_skip 193 = 2" by (simp add: g_utf8_skip_def utf8_length_def)
  have p0: "scan_step sample_scan_env sample_cpi_layout ?T
              \<lparr>scan_p = 0, last_para = 0, result = [], paint_width = 523\<rparr>
      = Continue \<lparr>scan_p = 2, last_para = 0, result = [], paint_width = 523\<rparr>"
    using scan_step_plain[of ?T "\<lparr>scan_p = 0, last_para = 0, result = [], paint_width = 523\<rparr>"
        sample_scan_env sample_cpi_layout]
    by (simp add: plain_at_def g INVALID_CHAR_def byte_at_def k)
  have u: "g_utf8_to_ucs4 [193, 129] = None"
    using overlong_decoded_and_refused by simp
  have p1: "scan_step sample_scan_env sample_cpi_layout ?T
              \<lparr>scan_p = 2, last_para = 0, result = [], paint_width = 523\<rparr>
      = Return (Inl Exit_1)"
    by (simp add: scan_step_def Let_def get_char_ascii INVALID_CHAR_def boundary_block_def u)
  have "scan (Suc (Suc 0)) sample_scan_env sample_cpi_layout ?T
          \<lparr>scan_p = 0, last_para = 0, result = [], paint_width = 523\<rparr> = Some (Inl Exit_1)"
    by (simp only: scan_continue[OF p0] scan_return[OF p1])
  moreover have "(2::nat) = Suc (Suc 0)" by simp
  ultimately show ?thesis by (simp only: split_text_into_paragraphs_def)
qed

lemma scan_step_fail_cups:
  assumes "scan_p s < length text"
    and "g_utf8_get_char (drop (scan_p s) text) = wc" and "wc = 10 \<or> wc = 12"
    and "cups_mode pl" and "cpi pl > 0" and "do_wordwrap pl"
    and "g_utf8_to_ucs4 (take (scan_p s - last_para s) (drop (last_para s) text)) = None"
  shows "scan_step env pl text s
       = Continue (s\<lparr>scan_p := scan_p s + g_utf8_skip (byte_at text (scan_p s))\<rparr>)"
  using assms by (auto simp: scan_step_def Let_def INVALID_CHAR_def boundary_block_def)

text \<open>With \<open>cups_mode\<close> on and the rewrap for cpi in force, the bytes of an invalid code point
  stay in the paragraph, whose conversion then fails at every boundary: the text \<open>A\<close>, the
  byte FF, \<open>B\<close>, newline, \<open>C\<close>, newline gives no paragraph at all.\<close>

lemma cups_rewrap_emits_nothing:
  "split_text_into_paragraphs 7 sample_scan_env (sample_cpi_layout\<lparr>cups_mode := True\<rparr>) 523
     [65, 255, 66, 10, 67, 10] = Some (Inr [])"
proof -
  let ?T = "[65, 255, 66, 10, 67, 10] :: gchar list"
  let ?L = "sample_cpi_layout\<lparr>cups_mode := True\<rparr>"
  let ?E = sample_scan_env
  have f: "cups_mode ?L" "cpi ?L > 0" "do_wordwrap ?L" by simp_all
  have bad: "g_utf8_to_ucs4 (65 # 255 # bs) = None" for bs
    by (simp add: g_utf8_to_ucs4.simps utf8_length_def get_char_ascii utf8_min_code_def
        INVALID_CHAR_def Let_def)
  have p0: "scan_step ?E ?L ?T \<lparr>scan_p = 0, last_para = 0, result = [], paint_width = 523\<rparr>
      = Continue \<lparr>scan_p = 1, last_para = 0, result = [], paint_width = 523\<rparr>"
    using scan_step_plain[of ?T "\<lparr>scan_p = 0, last_para = 0, result = [], paint_width = 523\<rparr>" ?E ?L]
    by (simp add: plain_at_def get_char_ascii INVALID_CHAR_def byte_at_def skip_ascii)
  have p1: "scan_step ?E ?L ?T \<lparr>scan_p = 1, last_para = 0, result = [], paint_width = 523\<rparr>
      = Continue \<lparr>scan_p = 2, last_para = 0, result = [], paint_width = 523\<rparr>"
    using scan_step_invalid_cups[of "\<lparr>scan_p = 1, last_para = 0, result = [], paint_width = 523\<rparr>"
        ?T ?L ?E]
    by (simp add: get_char_no_lead utf8_length_def byte_at_def g_utf8_skip_def)
  have p2: "scan_step ?E ?L ?T \<lparr>scan_p = 2, last_para = 0, result = [], paint_width = 523\<rparr>
      = Continue \<lparr>scan_p = 3, last_para = 0, result = [], paint_width = 523\<rparr>"
    using scan_step_plain[of ?T "\<lparr>scan_p = 2, last_para = 0, result = [], paint_width = 523\<rparr>" ?E ?L]
    by (simp add: plain_at_def get_char_ascii INVALID_CHAR_def byte_at_def skip_ascii)
  have p3: "scan_step ?E ?L ?T \<lparr>scan_p = 3, last_para = 0, result = [], paint_width = 523\<rparr>
      = Continue \<lparr>scan_p = 4, last_para = 0, result = [], paint_width = 523\<rparr>"
    using scan_step_fail_cups[of "\<lparr>scan_p = 3, last_para = 0, result = [], paint_width = 523\<rparr>"
        ?T 10 ?L ?E] f
    by (simp add: get_char_ascii bad byte_at_def skip_ascii)
  have p4: "scan_step ?E ?L ?T \<lparr>scan_p = 4, last_para = 0, result = [], paint_width = 523\<rparr>
      = Continue \<lparr>scan_p = 5, last_para = 0, result = [], paint_width = 523\<rparr>"
    using scan_step_plain[of ?T "\<lparr>scan_p = 4, last_para = 0, result = [], paint_width = 523\<rparr>" ?E ?L]
    by (simp add: plain_at_def get_char_ascii INVALID_CHAR_def byte_at_def skip_ascii)
  have p5: "scan_step ?E ?L ?T \<lparr>scan_p = 5, last_para = 0, result = [], paint_width = 523\<rparr>
      = Continue \<lparr>scan_p = 6, last_para = 0, result = [], paint_width = 523\<rparr>"
    using scan_step_fail_cups[of "\<lparr>scan_p = 5, last_para = 0, result = [], paint_width = 523\<rparr>"
        ?T 10 ?L ?E] f
    by (simp add: get_char_ascii bad byte_at_def skip_ascii)
  have p6: "scan_step ?E ?L ?T \<lparr>scan_p = 6, last_para = 0, result = [], paint_width = 523\<rparr>
      = Return (Inr [])"
    by (simp add: scan_step_def)
  have "scan (Suc (Suc (Suc (Suc (Suc (Suc (Suc 0))))))) ?E ?L ?T
          \<lparr>scan_p = 0, last_para = 0, result = [], paint_width = 523\<rparr> = Some (Inr [])"
    by (simp only: scan_continue[OF p0] scan_continue[OF p1] scan_continue[OF p2]
        scan_continue[OF p3] scan_continue[OF p4] scan_continue[OF p5] scan_return[OF p6])
  moreover have "(7::nat) = Suc (Suc (Suc (Suc (Suc (Suc (Suc 0))))))" by simp
  ultimately show ?thesis by (simp only: split_text_into_paragraphs_def)
qed

text \<open>The scan does not always end. At a budget of one character a paragraph that begins
  with a character two cells wide is cut at its start: the cut gives a paragraph of length 0,
  and the scan starts again at the same place.\<close>

lemma rewrap_cut_at_start_never_ends:
  "split_text_into_paragraphs fuel sample_scan_env sample_narrow_layout pw
     [10, 227, 129, 130, 227, 129, 130, 10] = None"
proof -
  let ?T = "[10, 227, 129, 130, 227, 129, 130, 10] :: gchar list"
  let ?L = sample_narrow_layout
  let ?E = sample_scan_env
  have u0: "g_utf8_to_ucs4 [] = Some []" by (simp add: g_utf8_to_ucs4.simps)
  have u2: "g_utf8_to_ucs4 [227, 129, 130, 227, 129, 130] = Some [12354, 12354]"
    using sample_wide_ucs4[of 2] by (simp add: sample_wide_def numeral_2_eq_2)
  have l2: "g_utf8_strlen [227, 129, 130, 227, 129, 130] = 2"
    using sample_wide_strlen[of 2] by (simp add: sample_wide_def numeral_2_eq_2)
  have first: "scan_step ?E ?L ?T \<lparr>scan_p = 0, last_para = 0, result = [], paint_width = pw\<rparr>
      = Continue \<lparr>scan_p = 1, last_para = 1,
          result = [new_paragraph ?L 0 0 10 (pango_layout_new\<lparr>layout_text := [], layout_width := - 1\<rparr>)],
          paint_width = pw\<rparr>"
  proof -
    let ?s = "\<lparr>scan_p = 0, last_para = 0, result = [], paint_width = pw\<rparr>"
    have bb: "boundary_block ?E ?L ?T (last_para ?s) (scan_p ?s)
           (scan_p ?s + g_utf8_skip (byte_at ?T (scan_p ?s))) 10 (paint_width ?s)
        = Block_ok (pango_layout_new\<lparr>layout_text := [], layout_width := - 1\<rparr>) 0 1 10 pw"
      using boundary_block_whole[of ?L 0 0 ?T "[]" "[]" 1 ?E 1 10 pw]
      by (simp add: u0 sample_narrow_columns g_utf8_strlen.simps byte_at_def skip_ascii)
    show ?thesis
      using scan_step_boundary[of ?s ?T 10 ?E ?L _ _ _ _ _, OF _ _ _ bb]
      by (simp add: get_char_ascii)
  qed
  have pl1: "scan_step ?E ?L ?T \<lparr>scan_p = 1, last_para = 1, result = ps, paint_width = w\<rparr>
      = Continue \<lparr>scan_p = 4, last_para = 1, result = ps, paint_width = w\<rparr>" for ps w
    using scan_step_plain[of ?T "\<lparr>scan_p = 1, last_para = 1, result = ps, paint_width = w\<rparr>" ?E ?L]
    by (simp add: plain_at_def get_char_wide INVALID_CHAR_def byte_at_def skip_wide)
  have pl2: "scan_step ?E ?L ?T \<lparr>scan_p = 4, last_para = 1, result = ps, paint_width = w\<rparr>
      = Continue \<lparr>scan_p = 7, last_para = 1, result = ps, paint_width = w\<rparr>" for ps w
    using scan_step_plain[of ?T "\<lparr>scan_p = 4, last_para = 1, result = ps, paint_width = w\<rparr>" ?E ?L]
    by (simp add: plain_at_def get_char_wide INVALID_CHAR_def byte_at_def skip_wide)
  have cut: "scan_step ?E ?L ?T \<lparr>scan_p = 7, last_para = 1, result = ps, paint_width = w\<rparr>
      = Continue \<lparr>scan_p = 1, last_para = 1,
          result = new_paragraph ?L 1 0 10 (pango_layout_new\<lparr>layout_text := [], layout_width := - 1\<rparr>) # ps,
          paint_width = 0\<rparr>" for ps w
  proof -
    let ?s = "\<lparr>scan_p = 7, last_para = 1, result = ps, paint_width = w\<rparr>"
    have c: "cpi ?L > 0" "do_wordwrap ?L" "g_utf8_strlen [227, 129, 130, 227, 129, 130] > 1"
      by (simp_all add: l2)
    have str: "take (7 - 1) (drop 1 ?T) = [227, 129, 130, 227, 129, 130]" by simp
    have wl: "wrap_loop (wcwidth ?E) 1
        (take (g_utf8_strlen [227, 129, 130, 227, 129, 130]) [12354, 12354]) 0 0 = 0"
      by (simp add: l2)
    have e: "g_ucs4_to_utf8 (take 0 [12354, 12354]) = Some []" by (simp add: g_ucs4_to_utf8_def)
    have o: "g_utf8_offset_to_pointer ?T 1 0 = 1" by (simp add: g_utf8_offset_to_pointer.simps)
    have pc: "g_utf8_prev_char ?T 1 = Some 0"
      using g_utf8_prev_char.simps(2)[of ?T 0] by (simp add: byte_at_def)
    have gc: "g_utf8_get_char (drop 0 ?T) = 10" by (simp add: get_char_ascii)
    have pw0: "layout_logical_width ?E (pango_layout_new\<lparr>layout_text := []\<rparr>) sdiv PANGO_SCALE = 0"
      by (simp add: signed_divide_int_def)
    have bb: "boundary_block ?E ?L ?T 1 7 n 10 w
        = Block_ok (pango_layout_new\<lparr>layout_text := [], layout_width := - 1\<rparr>) 0 1 10 0" for n
      using boundary_block_cut[of ?L 7 1 ?T "[227, 129, 130, 227, 129, 130]" "[12354, 12354]"
          1 ?E 0 "[]" 1 0 n 10 w, OF c(1,2) str u2 sample_narrow_columns c(3) wl e o pc]
      unfolding gc pw0 .
    have bb': "boundary_block ?E ?L ?T (last_para ?s) (scan_p ?s)
           (scan_p ?s + g_utf8_skip (byte_at ?T (scan_p ?s))) 10 (paint_width ?s)
        = Block_ok (pango_layout_new\<lparr>layout_text := [], layout_width := - 1\<rparr>) 0 1 10 0"
      using bb by simp
    show ?thesis
      using scan_step_boundary[of ?s ?T 10 ?E ?L _ _ _ _ _, OF _ _ _ bb']
      by (simp add: get_char_ascii)
  qed
  have loop: "scan n ?E ?L ?T \<lparr>scan_p = 1, last_para = 1, result = ps, paint_width = w\<rparr> = None"
    for n ps w
  proof (induction n arbitrary: ps w rule: less_induct)
    case (less n)
    show ?case
    proof (cases n)
      case 0
      then show ?thesis by simp
    next
      case (Suc a)
      note a = this
      show ?thesis
      proof (cases a)
        case 0
        note z = this
        show ?thesis unfolding a z by (simp only: scan_continue[OF pl1] scan.simps(1))
      next
        case (Suc b)
        note b = this
        show ?thesis
        proof (cases b)
          case 0
          note z = this
          show ?thesis unfolding a b z
            by (simp only: scan_continue[OF pl1] scan_continue[OF pl2] scan.simps(1))
        next
          case (Suc c)
          have "c < n" unfolding a b Suc by simp
          from less.IH[OF this] show ?thesis unfolding a b Suc
            by (simp only: scan_continue[OF pl1] scan_continue[OF pl2] scan_continue[OF cut])
        qed
      qed
    qed
  qed
  show ?thesis
  proof (cases fuel)
    case 0
    then show ?thesis by (simp add: split_text_into_paragraphs_def)
  next
    case (Suc n)
    show ?thesis
      unfolding split_text_into_paragraphs_def Suc
      by (simp only: scan_continue[OF first] loop)
  qed
qed

text \<open>The same at an invalid code point in place of the newline: the cut at the start
  gives a character that is not 0, and the scan goes back.\<close>

lemma scan_step_invalid_boundary:
  assumes "scan_p s < length text"
    and "g_utf8_get_char (drop (scan_p s) text) = INVALID_CHAR" and "\<not> cups_mode pl"
    and "boundary_block env pl text (last_para s) (scan_p s)
           (scan_p s + g_utf8_skip (byte_at text (scan_p s))) 0 (paint_width s)
         = Block_ok layout len nxt wc' pw"
    and "wc' \<noteq> 0"
  shows "scan_step env pl text s
       = Continue \<lparr>scan_p = nxt, last_para = nxt,
           result = new_paragraph pl (last_para s) len wc' layout # result s,
           paint_width = pw\<rparr>"
  using assms by (auto simp: scan_step_def Let_def)

lemma invalid_rewrap_never_ends:
  "split_text_into_paragraphs fuel sample_scan_env sample_narrow_layout pw
     [10, 227, 129, 130, 227, 129, 130, 255] = None"
proof -
  let ?T = "[10, 227, 129, 130, 227, 129, 130, 255] :: gchar list"
  let ?L = sample_narrow_layout
  let ?E = sample_scan_env
  have u0: "g_utf8_to_ucs4 [] = Some []" by (simp add: g_utf8_to_ucs4.simps)
  have u2: "g_utf8_to_ucs4 [227, 129, 130, 227, 129, 130] = Some [12354, 12354]"
    using sample_wide_ucs4[of 2] by (simp add: sample_wide_def numeral_2_eq_2)
  have l2: "g_utf8_strlen [227, 129, 130, 227, 129, 130] = 2"
    using sample_wide_strlen[of 2] by (simp add: sample_wide_def numeral_2_eq_2)
  have first: "scan_step ?E ?L ?T \<lparr>scan_p = 0, last_para = 0, result = [], paint_width = pw\<rparr>
      = Continue \<lparr>scan_p = 1, last_para = 1,
          result = [new_paragraph ?L 0 0 10 (pango_layout_new\<lparr>layout_text := [], layout_width := - 1\<rparr>)],
          paint_width = pw\<rparr>"
  proof -
    let ?s = "\<lparr>scan_p = 0, last_para = 0, result = [], paint_width = pw\<rparr>"
    have bb: "boundary_block ?E ?L ?T (last_para ?s) (scan_p ?s)
           (scan_p ?s + g_utf8_skip (byte_at ?T (scan_p ?s))) 10 (paint_width ?s)
        = Block_ok (pango_layout_new\<lparr>layout_text := [], layout_width := - 1\<rparr>) 0 1 10 pw"
      using boundary_block_whole[of ?L 0 0 ?T "[]" "[]" 1 ?E 1 10 pw]
      by (simp add: u0 sample_narrow_columns g_utf8_strlen.simps byte_at_def skip_ascii)
    show ?thesis
      using scan_step_boundary[of ?s ?T 10 ?E ?L _ _ _ _ _, OF _ _ _ bb]
      by (simp add: get_char_ascii)
  qed
  have pl1: "scan_step ?E ?L ?T \<lparr>scan_p = 1, last_para = 1, result = ps, paint_width = w\<rparr>
      = Continue \<lparr>scan_p = 4, last_para = 1, result = ps, paint_width = w\<rparr>" for ps w
    using scan_step_plain[of ?T "\<lparr>scan_p = 1, last_para = 1, result = ps, paint_width = w\<rparr>" ?E ?L]
    by (simp add: plain_at_def get_char_wide INVALID_CHAR_def byte_at_def skip_wide)
  have pl2: "scan_step ?E ?L ?T \<lparr>scan_p = 4, last_para = 1, result = ps, paint_width = w\<rparr>
      = Continue \<lparr>scan_p = 7, last_para = 1, result = ps, paint_width = w\<rparr>" for ps w
    using scan_step_plain[of ?T "\<lparr>scan_p = 4, last_para = 1, result = ps, paint_width = w\<rparr>" ?E ?L]
    by (simp add: plain_at_def get_char_wide INVALID_CHAR_def byte_at_def skip_wide)
  have cut: "scan_step ?E ?L ?T \<lparr>scan_p = 7, last_para = 1, result = ps, paint_width = w\<rparr>
      = Continue \<lparr>scan_p = 1, last_para = 1,
          result = new_paragraph ?L 1 0 10 (pango_layout_new\<lparr>layout_text := [], layout_width := - 1\<rparr>) # ps,
          paint_width = 0\<rparr>" for ps w
  proof -
    let ?s = "\<lparr>scan_p = 7, last_para = 1, result = ps, paint_width = w\<rparr>"
    have c: "cpi ?L > 0" "do_wordwrap ?L" "g_utf8_strlen [227, 129, 130, 227, 129, 130] > 1"
      by (simp_all add: l2)
    have str: "take (7 - 1) (drop 1 ?T) = [227, 129, 130, 227, 129, 130]" by simp
    have wl: "wrap_loop (wcwidth ?E) 1
        (take (g_utf8_strlen [227, 129, 130, 227, 129, 130]) [12354, 12354]) 0 0 = 0"
      by (simp add: l2)
    have e: "g_ucs4_to_utf8 (take 0 [12354, 12354]) = Some []" by (simp add: g_ucs4_to_utf8_def)
    have o: "g_utf8_offset_to_pointer ?T 1 0 = 1" by (simp add: g_utf8_offset_to_pointer.simps)
    have pc: "g_utf8_prev_char ?T 1 = Some 0"
      using g_utf8_prev_char.simps(2)[of ?T 0] by (simp add: byte_at_def)
    have gc: "g_utf8_get_char (drop 0 ?T) = 10" by (simp add: get_char_ascii)
    have pw0: "layout_logical_width ?E (pango_layout_new\<lparr>layout_text := []\<rparr>) sdiv PANGO_SCALE = 0"
      by (simp add: signed_divide_int_def)
    have bb: "boundary_block ?E ?L ?T 1 7 n 0 w
        = Block_ok (pango_layout_new\<lparr>layout_text := [], layout_width := - 1\<rparr>) 0 1 10 0" for n
      using boundary_block_cut[of ?L 7 1 ?T "[227, 129, 130, 227, 129, 130]" "[12354, 12354]"
          1 ?E 0 "[]" 1 0 n 0 w, OF c(1,2) str u2 sample_narrow_columns c(3) wl e o pc]
      unfolding gc pw0 .
    have bb': "boundary_block ?E ?L ?T (last_para ?s) (scan_p ?s)
           (scan_p ?s + g_utf8_skip (byte_at ?T (scan_p ?s))) 0 (paint_width ?s)
        = Block_ok (pango_layout_new\<lparr>layout_text := [], layout_width := - 1\<rparr>) 0 1 10 0"
      using bb by simp
    have i: "g_utf8_get_char (drop (scan_p ?s) ?T) = INVALID_CHAR"
      by (simp add: get_char_no_lead utf8_length_def)
    show ?thesis
      using scan_step_invalid_boundary[of ?s ?T ?L ?E _ _ _ _ _, OF _ i _ bb']
      by simp
  qed
  have loop: "scan n ?E ?L ?T \<lparr>scan_p = 1, last_para = 1, result = ps, paint_width = w\<rparr> = None"
    for n ps w
  proof (induction n arbitrary: ps w rule: less_induct)
    case (less n)
    show ?case
    proof (cases n)
      case 0
      then show ?thesis by simp
    next
      case (Suc a)
      note a = this
      show ?thesis
      proof (cases a)
        case 0
        note z = this
        show ?thesis unfolding a z by (simp only: scan_continue[OF pl1] scan.simps(1))
      next
        case (Suc b)
        note b = this
        show ?thesis
        proof (cases b)
          case 0
          note z = this
          show ?thesis unfolding a b z
            by (simp only: scan_continue[OF pl1] scan_continue[OF pl2] scan.simps(1))
        next
          case (Suc c)
          have "c < n" unfolding a b Suc by simp
          from less.IH[OF this] show ?thesis unfolding a b Suc
            by (simp only: scan_continue[OF pl1] scan_continue[OF pl2] scan_continue[OF cut])
        qed
      qed
    qed
  qed
  show ?thesis
  proof (cases fuel)
    case 0
    then show ?thesis by (simp add: split_text_into_paragraphs_def)
  next
    case (Suc n)
    show ?thesis
      unfolding split_text_into_paragraphs_def Suc
      by (simp only: scan_continue[OF first] loop)
  qed
qed

end
